theory Spec2Isabelle
  imports Complex_Main
begin

section \<open>Colors, points and shapes\<close>

text \<open>
  The Go type \<^verbatim>\<open>Color\<close> is a string. The package-level \<^verbatim>\<open>colorMap\<close> is a fixed
  table from color names to RGB triplets; it is never written after its declaration,
  so it is a constant of the model.
\<close>

type_synonym Color = string

definition colorTable :: "(Color \<times> (int \<times> int \<times> int)) list" where
  "colorTable =
    [(''red'', (255, 0, 0)),
     (''green'', (0, 255, 0)),
     (''blue'', (0, 0, 255)),
     (''yellow'', (255, 255, 0)),
     (''orange'', (255, 164, 0)),
     (''purple'', (128, 0, 128)),
     (''brown'', (165, 42, 42)),
     (''black'', (0, 0, 0)),
     (''white'', (255, 255, 255))]"

definition colorMap :: "Color \<Rightarrow> (int \<times> int \<times> int) option" where
  "colorMap = map_of colorTable"

text \<open>\<^verbatim>\<open>colorUnknown\<close>: true if the color is not in the map.\<close>

definition colorUnknown :: "Color \<Rightarrow> bool" where
  "colorUnknown c = (colorMap c = None)"

text \<open>
  Go's \<^verbatim>\<open>int\<close> is modelled by \<^typ>\<open>int\<close>. The struct fields \<^verbatim>\<open>x\<close>, \<^verbatim>\<open>y\<close>,
  \<^verbatim>\<open>c\<close> and \<^verbatim>\<open>r\<close> carry a prefix, since a record field is a constant.
\<close>

record Point =
  px :: int
  py :: int

record Rectangle =
  ll :: Point
  ur :: Point
  rect_c :: Color

record Triangle =
  pt0 :: Point
  pt1 :: Point
  pt2 :: Point
  tri_c :: Color

record Circle =
  center :: Point
  circ_r :: int
  circ_c :: Color

record Display =
  maxX :: int
  maxY :: int
  matrix :: "Color list list"

section \<open>Errors and run-time panics\<close>

text \<open>
  The two package-level error values, and the error of \<^verbatim>\<open>os.Create\<close>. A Go function
  returning \<^verbatim>\<open>error\<close> returns an \<open>error option\<close> here, \<^term>\<open>None\<close> for \<^verbatim>\<open>nil\<close>.
\<close>

datatype error = outOfBoundsErr | colorUnknownErr | createErr

text \<open>
  A run-time panic ends the program. Every operation that can panic (indexing, slicing,
  \<^verbatim>\<open>make\<close> with a negative size) returns \<open>panic + 'a\<close>, with \<^term>\<open>Inl\<close> for the panic.
\<close>

datatype panic = IndexOutOfRange | SliceBoundsOutOfRange | MakeSliceOutOfRange

text \<open>Indexing a slice, \<^verbatim>\<open>xs[i]\<close>.\<close>

definition index :: "'a list \<Rightarrow> int \<Rightarrow> panic + 'a" where
  "index xs i = (if 0 \<le> i \<and> i < int (length xs) then Inr (xs ! nat i) else Inl IndexOutOfRange)"

section \<open>The screen interface and its loops\<close>

text \<open>
  The interface \<^verbatim>\<open>screen\<close> is a record of its methods over the state \<open>'s\<close> of the
  implementing type. A method with a pointer receiver takes the state and returns the new
  one. \<^verbatim>\<open>screenShot\<close> takes the file system as well.
\<close>

record filesystem =
  creatable :: "string \<Rightarrow> bool"
  files :: "string \<Rightarrow> string option"

record 's screen =
  initialize :: "'s \<Rightarrow> int \<Rightarrow> int \<Rightarrow> panic + 's"
  getMaxXY :: "'s \<Rightarrow> int \<times> int"
  drawPixel :: "'s \<Rightarrow> int \<Rightarrow> int \<Rightarrow> Color \<Rightarrow> panic + ('s \<times> error option)"
  getPixel :: "'s \<Rightarrow> int \<Rightarrow> int \<Rightarrow> panic + (Color \<times> error option)"
  clearScreen :: "'s \<Rightarrow> 's"
  screenShot :: "'s \<Rightarrow> string \<Rightarrow> filesystem \<Rightarrow> panic + (filesystem \<times> error option)"

text \<open>
  The loop \<^verbatim>\<open>for i := lo; i < hi; i++ { if err := body(i); err != nil { return err } }\<close>
  followed by \<^verbatim>\<open>return nil\<close>: the first error ends the loop and is the result, with the
  state as it is at that moment; a panic ends everything.
\<close>

function for_upto ::
  "int \<Rightarrow> int \<Rightarrow> (int \<Rightarrow> 's \<Rightarrow> panic + ('s \<times> error option)) \<Rightarrow> 's \<Rightarrow> panic + ('s \<times> error option)"
where
  "for_upto i hi body s =
     (if i < hi then
        (case body i s of
           Inl p \<Rightarrow> Inl p
         | Inr (s', Some e) \<Rightarrow> Inr (s', Some e)
         | Inr (s', None) \<Rightarrow> for_upto (i + 1) hi body s')
      else Inr (s, None))"
  by pat_completeness auto
termination
  by (relation "measure (\<lambda>(i, hi, body, s). nat (hi - i))") auto

declare for_upto.simps [simp del]

text \<open>\<^verbatim>\<open>outOfBounds\<close>: true if point p lies outside the screen.\<close>

definition outOfBounds :: "'s screen \<Rightarrow> Point \<Rightarrow> 's \<Rightarrow> bool" where
  "outOfBounds scn p s =
     (case getMaxXY scn s of (mx, my) \<Rightarrow> px p < 0 \<or> px p \<ge> mx \<or> py p < 0 \<or> py p \<ge> my)"

section \<open>Rectangle\<close>

definition Rectangle_draw :: "'s screen \<Rightarrow> Rectangle \<Rightarrow> 's \<Rightarrow> panic + ('s \<times> error option)" where
  "Rectangle_draw scn r s =
     (case getMaxXY scn s of (mx, my) \<Rightarrow>
        if px (ll r) < 0 \<or> py (ll r) < 0 \<or> px (ur r) \<ge> mx \<or> py (ur r) \<ge> my
        then Inr (s, Some outOfBoundsErr)
        else if colorUnknown (rect_c r) then Inr (s, Some colorUnknownErr)
        else
          for_upto (px (ll r)) (px (ur r))
            (\<lambda>x. for_upto (py (ll r)) (py (ur r)) (\<lambda>y s'. drawPixel scn s' x y (rect_c r))) s)"

section \<open>Display\<close>

definition Display_getMaxXY :: "Display \<Rightarrow> int \<times> int" where
  "Display_getMaxXY d = (maxX d, maxY d)"

text \<open>\<^verbatim>\<open>d.matrix[x][y] = c\<close> panics when either index is out of range.\<close>

definition Display_drawPixel :: "Display \<Rightarrow> int \<Rightarrow> int \<Rightarrow> Color \<Rightarrow> panic + (Display \<times> error option)" where
  "Display_drawPixel d x y c =
     (if x < 0 \<or> x \<ge> maxX d \<or> y < 0 \<or> y \<ge> maxY d then Inr (d, Some outOfBoundsErr)
      else if colorUnknown c then Inr (d, Some colorUnknownErr)
      else
        (case index (matrix d) x of
           Inl p \<Rightarrow> Inl p
         | Inr row \<Rightarrow>
             (case index row y of
                Inl p \<Rightarrow> Inl p
              | Inr _ \<Rightarrow> Inr (d\<lparr>matrix := (matrix d)[nat x := row[nat y := c]]\<rparr>, None))))"

definition Display_getPixel :: "Display \<Rightarrow> int \<Rightarrow> int \<Rightarrow> panic + (Color \<times> error option)" where
  "Display_getPixel d x y =
     (if x < 0 \<or> x \<ge> maxX d \<or> y < 0 \<or> y \<ge> maxY d then Inr ('''', Some outOfBoundsErr)
      else
        (case index (matrix d) x of
           Inl p \<Rightarrow> Inl p
         | Inr row \<Rightarrow>
             (case index row y of
                Inl p \<Rightarrow> Inl p
              | Inr colr \<Rightarrow>
                  if colorUnknown colr then Inr ('''', Some colorUnknownErr)
                  else Inr (colr, None))))"

text \<open>Both loops of \<^verbatim>\<open>clearScreen\<close> range over the slices themselves.\<close>

definition Display_clearScreen :: "Display \<Rightarrow> Display" where
  "Display_clearScreen d = d\<lparr>matrix := map (map (\<lambda>_. ''white'')) (matrix d)\<rparr>"

text \<open>
  \<^verbatim>\<open>make([][]Color, x)\<close> panics for a negative \<open>x\<close>, and \<^verbatim>\<open>make([]Color, y)\<close>, which runs
  once per row, for a negative \<open>y\<close>. A new row holds the zero value of \<^verbatim>\<open>Color\<close>, the empty
  string. The receiver's old fields are all overwritten. (\<^verbatim>\<open>make\<close> also fails for sizes
  beyond the memory of the machine; that limit is not modelled.)
\<close>

definition Display_initialize :: "Display \<Rightarrow> int \<Rightarrow> int \<Rightarrow> panic + Display" where
  "Display_initialize d x y =
     (if x < 0 then Inl MakeSliceOutOfRange
      else if 0 < x \<and> y < 0 then Inl MakeSliceOutOfRange
      else Inr (Display_clearScreen
                  (d\<lparr>maxX := x, maxY := y, matrix := replicate (nat x) (replicate (nat y) '''')\<rparr>)))"

section \<open>Machine arithmetic\<close>

text \<open>
  Go's \<^verbatim>\<open>int\<close> has 64 bits on the usual platforms. The coordinates of a rectangle or a
  triangle are compared and counted only, or subtracted after they were checked to lie on
  the screen, so nothing there can overflow. The circle adds and subtracts its unchecked
  center and radius; there the wrap-around is written out.
\<close>

definition wrap64 :: "int \<Rightarrow> int" where
  "wrap64 i = (i + 2 ^ 63) mod 2 ^ 64 - 2 ^ 63"

text \<open>
  A \<^verbatim>\<open>float64\<close> is a finite real that the format represents, an infinity or a
  not-a-number. The two zeros are not told apart: the only zero divisor of this program is
  the conversion of the integer 0, which is the positive zero.
\<close>

datatype float64 = Finite real | PosInf | NegInf | NaN

text \<open>
  Rounding to the nearest representable number, ties to the even significand: the
  significand has 53 bits, and the exponent of the last bit is never below \<open>-1074\<close>.
\<close>

definition round_even :: "real \<Rightarrow> int" where
  "round_even x =
     (let f = \<lfloor>x\<rfloor>; r = x - of_int f
      in if r < 1 / 2 then f else if 1 / 2 < r then f + 1 else if even f then f else f + 1)"

definition ulp :: "real \<Rightarrow> real" where
  "ulp x = 2 powr of_int (max \<lfloor>log 2 \<bar>x\<bar>\<rfloor> (- 1022) - 52)"

definition round64 :: "real \<Rightarrow> real" where
  "round64 x = (if x = 0 then 0 else of_int (round_even (x / ulp x)) * ulp x)"

definition to_float64 :: "real \<Rightarrow> float64" where
  "to_float64 x =
     (let y = round64 x
      in if 2 ^ 1024 \<le> y then PosInf else if y \<le> - (2 ^ 1024) then NegInf else Finite y)"

text \<open>The conversion \<^verbatim>\<open>float64(i)\<close> of an integer.\<close>

definition float64_of_int :: "int \<Rightarrow> float64" where
  "float64_of_int i = to_float64 (of_int i)"

text \<open>
  The conversion \<^verbatim>\<open>int(d)\<close> drops the fraction. Where the value does not fit the result
  is implementation-dependent and no panic; on amd64 it is the least integer.
\<close>

definition int_of_float64 :: "float64 \<Rightarrow> int" where
  "int_of_float64 d =
     (case d of
        Finite x \<Rightarrow>
          (let t = (if 0 \<le> x then \<lfloor>x\<rfloor> else \<lceil>x\<rceil>)
           in if - (2 ^ 63) \<le> t \<and> t < 2 ^ 63 then t else - (2 ^ 63))
      | _ \<Rightarrow> - (2 ^ 63))"

fun fdiv :: "float64 \<Rightarrow> float64 \<Rightarrow> float64" where
  "fdiv (Finite a) (Finite b) =
     (if b = 0 then (if a = 0 then NaN else if 0 < a then PosInf else NegInf)
      else to_float64 (a / b))"
| "fdiv (Finite a) PosInf = Finite 0"
| "fdiv (Finite a) NegInf = Finite 0"
| "fdiv PosInf (Finite b) = (if b < 0 then NegInf else PosInf)"
| "fdiv NegInf (Finite b) = (if b < 0 then PosInf else NegInf)"
| "fdiv _ _ = NaN"

fun fadd :: "float64 \<Rightarrow> float64 \<Rightarrow> float64" where
  "fadd (Finite a) (Finite b) = to_float64 (a + b)"
| "fadd (Finite a) PosInf = PosInf"
| "fadd (Finite a) NegInf = NegInf"
| "fadd PosInf (Finite b) = PosInf"
| "fadd NegInf (Finite b) = NegInf"
| "fadd PosInf PosInf = PosInf"
| "fadd NegInf NegInf = NegInf"
| "fadd _ _ = NaN"

fun fmul :: "float64 \<Rightarrow> float64 \<Rightarrow> float64" where
  "fmul (Finite a) (Finite b) = to_float64 (a * b)"
| "fmul (Finite a) PosInf = (if a = 0 then NaN else if 0 < a then PosInf else NegInf)"
| "fmul (Finite a) NegInf = (if a = 0 then NaN else if 0 < a then NegInf else PosInf)"
| "fmul PosInf (Finite b) = (if b = 0 then NaN else if 0 < b then PosInf else NegInf)"
| "fmul NegInf (Finite b) = (if b = 0 then NaN else if 0 < b then NegInf else PosInf)"
| "fmul PosInf PosInf = PosInf"
| "fmul NegInf NegInf = PosInf"
| "fmul PosInf NegInf = NegInf"
| "fmul NegInf PosInf = NegInf"
| "fmul _ _ = NaN"

text \<open>\<^verbatim>\<open>math.Sqrt\<close> is the correctly rounded square root.\<close>

fun fsqrt :: "float64 \<Rightarrow> float64" where
  "fsqrt (Finite a) = (if a < 0 then NaN else Finite (round64 (sqrt a)))"
| "fsqrt PosInf = PosInf"
| "fsqrt _ = NaN"

text \<open>The comparison \<^verbatim>\<open><=\<close>: false whenever a not-a-number takes part.\<close>

fun fle :: "float64 \<Rightarrow> float64 \<Rightarrow> bool" where
  "fle NaN _ = False"
| "fle _ NaN = False"
| "fle (Finite a) (Finite b) = (a \<le> b)"
| "fle NegInf _ = True"
| "fle _ PosInf = True"
| "fle _ _ = False"

section \<open>Triangle\<close>

text \<open>
  \<^verbatim>\<open>interpolate\<close>: the slope is a float division, which divides by zero without a
  panic; \<^verbatim>\<open>make([]int, 0, n)\<close> panics for a negative capacity; the loop appends
  \<open>n\<close> samples, each the running sum with its fraction dropped.

  The three differences \<^verbatim>\<open>d1-d0\<close>, \<^verbatim>\<open>l1-l0\<close> and \<^verbatim>\<open>l1-l0+1\<close> are written over the
  unbounded integers. \<^verbatim>\<open>draw\<close>, the only caller, passes coordinates that have passed its
  bounds check, from \<open>0\<close> up to a 64-bit size of the screen, and there Go's 64-bit
  differences are the same numbers. Called with other arguments whose difference leaves
  the 64-bit range, the Go function wraps around and this one does not.
\<close>

fun interpolate_loop :: "nat \<Rightarrow> float64 \<Rightarrow> float64 \<Rightarrow> int list" where
  "interpolate_loop 0 d a = []"
| "interpolate_loop (Suc k) d a = int_of_float64 d # interpolate_loop k (fadd d a) a"

definition interpolate :: "int \<Rightarrow> int \<Rightarrow> int \<Rightarrow> int \<Rightarrow> panic + int list" where
  "interpolate l0 d0 l1 d1 =
     (let a = fdiv (float64_of_int (d1 - d0)) (float64_of_int (l1 - l0));
          d = float64_of_int d0;
          n = l1 - l0 + 1
      in if n < 0 then Inl MakeSliceOutOfRange else Inr (interpolate_loop (nat n) d a))"

text \<open>The slice expression \<^verbatim>\<open>xs[:k]\<close> of a slice whose capacity is its length.\<close>

definition slice_to :: "'a list \<Rightarrow> int \<Rightarrow> panic + 'a list" where
  "slice_to xs k =
     (if 0 \<le> k \<and> k \<le> int (length xs) then Inr (take (nat k) xs) else Inl SliceBoundsOutOfRange)"

text \<open>The three conditional swaps that sort the vertices by ascending y.\<close>

definition sort_vertices :: "Triangle \<Rightarrow> (int \<times> int) \<times> (int \<times> int) \<times> (int \<times> int)" where
  "sort_vertices t =
     (let x0 = px (pt0 t); y0 = py (pt0 t);
          x1 = px (pt1 t); y1 = py (pt1 t);
          x2 = px (pt2 t); y2 = py (pt2 t);
          (x0, y0, x1, y1) = (if y1 < y0 then (x1, y1, x0, y0) else (x0, y0, x1, y1));
          (x0, y0, x2, y2) = (if y2 < y0 then (x2, y2, x0, y0) else (x0, y0, x2, y2));
          (x1, y1, x2, y2) = (if y2 < y1 then (x2, y2, x1, y1) else (x1, y1, x2, y2))
      in ((x0, y0), (x1, y1), (x2, y2)))"

text \<open>
  In \<^verbatim>\<open>draw\<close> the slice \<^verbatim>\<open>x01[:len(x01)-1]\<close> shares its array with \<^verbatim>\<open>x01\<close>, and
  \<^verbatim>\<open>append\<close> may write the first sample of \<^verbatim>\<open>x12\<close> into it; \<^verbatim>\<open>x01\<close> is not read after
  that, so the lists of the model need no store.

  The fill loops of the triangle. \<^verbatim>\<open>left[yy-y0]\<close> and \<^verbatim>\<open>right[yy-y0]\<close> are read at
  the start of each scan line; both slices stay as they are during the loop.
\<close>

definition fill_spans ::
  "'s screen \<Rightarrow> int list \<Rightarrow> int list \<Rightarrow> int \<Rightarrow> int \<Rightarrow> Color \<Rightarrow> 's \<Rightarrow> panic + ('s \<times> error option)"
where
  "fill_spans scn left right y0 y2 c s =
     for_upto y0 (y2 + 1)
       (\<lambda>yy s'.
          case index left (yy - y0) of
            Inl p \<Rightarrow> Inl p
          | Inr l \<Rightarrow>
              (case index right (yy - y0) of
                 Inl p \<Rightarrow> Inl p
               | Inr r \<Rightarrow> for_upto l (r + 1) (\<lambda>xx s''. drawPixel scn s'' xx yy c) s')) s"

definition Triangle_draw :: "'s screen \<Rightarrow> Triangle \<Rightarrow> 's \<Rightarrow> panic + ('s \<times> error option)" where
  "Triangle_draw scn t s =
     (if outOfBounds scn (pt0 t) s \<or> outOfBounds scn (pt1 t) s \<or> outOfBounds scn (pt2 t) s
      then Inr (s, Some outOfBoundsErr)
      else if colorUnknown (tri_c t) then Inr (s, Some colorUnknownErr)
      else
        (case sort_vertices t of ((x0, y0), (x1, y1), (x2, y2)) \<Rightarrow>
           (case interpolate y0 x0 y1 x1 of Inl p \<Rightarrow> Inl p | Inr x01 \<Rightarrow>
           (case interpolate y1 x1 y2 x2 of Inl p \<Rightarrow> Inl p | Inr x12 \<Rightarrow>
           (case interpolate y0 x0 y2 x2 of Inl p \<Rightarrow> Inl p | Inr x02 \<Rightarrow>
           (case slice_to x01 (int (length x01) - 1) of Inl p \<Rightarrow> Inl p | Inr x01' \<Rightarrow>
              (let x012 = x01' @ x12;
                   mid = int (length x012) div 2
               in (case index x02 mid of Inl p \<Rightarrow> Inl p | Inr a \<Rightarrow>
                  (case index x012 mid of Inl p \<Rightarrow> Inl p | Inr b \<Rightarrow>
                     (let (left, right) = (if a < b then (x02, x012) else (x012, x02))
                      in fill_spans scn left right y0 y2 (tri_c t) s))))))))))"

section \<open>Circle\<close>

text \<open>
  \<^verbatim>\<open>insideCircle\<close>: true if the tile lies inside or exactly on the circle. Each
  operation rounds on its own; a compiler that fuses the multiplication and the addition
  gives the same result wherever the products are exact.
\<close>

definition insideCircle :: "Point \<Rightarrow> Point \<Rightarrow> float64 \<Rightarrow> bool" where
  "insideCircle cen tile r =
     (let dx = float64_of_int (wrap64 (px cen - px tile));
          dy = float64_of_int (wrap64 (py cen - py tile))
      in fle (fsqrt (fadd (fmul dx dx) (fmul dy dy))) r)"

text \<open>The circle drops the result of each \<^verbatim>\<open>drawPixel\<close>; only a panic gets through.\<close>

definition Circle_draw :: "'s screen \<Rightarrow> Circle \<Rightarrow> 's \<Rightarrow> panic + ('s \<times> error option)" where
  "Circle_draw scn circ s =
     (if wrap64 (px (center circ) - circ_r circ) < 0 \<or> wrap64 (py (center circ) - circ_r circ) < 0
      then Inr (s, Some outOfBoundsErr)
      else
        (case getMaxXY scn s of (mx, my) \<Rightarrow>
           if wrap64 (px (center circ) + circ_r circ) \<ge> mx \<or> wrap64 (py (center circ) + circ_r circ) \<ge> my
           then Inr (s, Some outOfBoundsErr)
           else if colorUnknown (circ_c circ) then Inr (s, Some colorUnknownErr)
           else
             (let height = wrap64 (py (center circ) + circ_r circ);
                  width = wrap64 (px (center circ) + circ_r circ)
              in for_upto 0 height
                   (\<lambda>y. for_upto 0 width
                      (\<lambda>x s'.
                         if insideCircle (center circ) \<lparr>px = x, py = y\<rparr> (float64_of_int (circ_r circ))
                         then (case drawPixel scn s' x y (circ_c circ) of
                                 Inl p \<Rightarrow> Inl p
                               | Inr (s'', _) \<Rightarrow> Inr (s'', None))
                         else Inr (s', None))) s)))"

section \<open>The snapshot\<close>

text \<open>The verb \<^verbatim>\<open>%d\<close>: an integer in decimal, with a minus sign when negative.\<close>

function show_nat :: "nat \<Rightarrow> string" where
  "show_nat n =
     (if n < 10 then [char_of (48 + n)] else show_nat (n div 10) @ [char_of (48 + n mod 10)])"
  by pat_completeness auto
termination
  by (relation "measure id") auto

declare show_nat.simps [simp del]

definition format_d :: "int \<Rightarrow> string" where
  "format_d i = (if i < 0 then ''-'' @ show_nat (nat (- i)) else show_nat (nat i))"

definition newline :: char where
  "newline = CHR 0x0A"

text \<open>
  \<^verbatim>\<open>screenShot\<close> creates the file \<open>f.ppm\<close> and writes the header and one line per index of
  the first axis of the matrix; every triplet is followed by a space. A color that is not a
  key of \<^verbatim>\<open>colorMap\<close> reads as the zero triplet. The results of the writes are dropped by
  the source, and the message printed when the file cannot be created is left out.
\<close>

definition write_row :: "Display \<Rightarrow> int \<Rightarrow> string \<Rightarrow> panic + (string \<times> error option)" where
  "write_row d r out =
     (case for_upto 0 (maxY d)
             (\<lambda>c out'.
                case index (matrix d) r of
                  Inl p \<Rightarrow> Inl p
                | Inr row \<Rightarrow>
                    (case index row c of
                       Inl p \<Rightarrow> Inl p
                     | Inr colr \<Rightarrow>
                         (case (case colorMap colr of None \<Rightarrow> (0, 0, 0) | Some rgb \<Rightarrow> rgb) of
                            (r0, r1, r2) \<Rightarrow>
                              Inr (out' @ format_d r0 @ '' '' @ format_d r1 @ '' '' @ format_d r2 @ '' '',
                                   None)))) out
      of Inl p \<Rightarrow> Inl p
       | Inr (out', e) \<Rightarrow> Inr (out' @ [newline], e))"

definition Display_screenShot :: "Display \<Rightarrow> string \<Rightarrow> filesystem \<Rightarrow> panic + (filesystem \<times> error option)" where
  "Display_screenShot d f fs =
     (if \<not> creatable fs (f @ ''.ppm'') then Inr (fs, Some createErr)
      else
        (let header = ''P3'' @ [newline] @ format_d (maxX d) @ '' '' @ format_d (maxY d) @ [newline]
                      @ ''255'' @ [newline]
         in case for_upto 0 (maxX d) (write_row d) header of
              Inl p \<Rightarrow> Inl p
            | Inr (out, _) \<Rightarrow> Inr (fs\<lparr>files := (files fs)(f @ ''.ppm'' \<mapsto> out)\<rparr>, None)))"

text \<open>\<^verbatim>\<open>*Display\<close> implements \<^verbatim>\<open>screen\<close>.\<close>

definition Display_screen :: "Display screen" where
  "Display_screen =
     \<lparr>initialize = Display_initialize,
      getMaxXY = Display_getMaxXY,
      drawPixel = Display_drawPixel,
      getPixel = Display_getPixel,
      clearScreen = Display_clearScreen,
      screenShot = Display_screenShot\<rparr>"

section \<open>Sequences of calls on a display\<close>

text \<open>
  The calls that change a display after \<^verbatim>\<open>initialize\<close>. A caller may ignore the error of
  a call and go on; a panic ends the sequence.
\<close>

datatype call =
    CallDrawPixel int int Color
  | CallClearScreen
  | CallRectangle Rectangle
  | CallTriangle Triangle
  | CallCircle Circle

fun perform :: "Display \<Rightarrow> call \<Rightarrow> panic + Display" where
  "perform d (CallDrawPixel x y c) = map_sum id fst (Display_drawPixel d x y c)"
| "perform d CallClearScreen = Inr (Display_clearScreen d)"
| "perform d (CallRectangle r) = map_sum id fst (Rectangle_draw Display_screen r d)"
| "perform d (CallTriangle t) = map_sum id fst (Triangle_draw Display_screen t d)"
| "perform d (CallCircle circ) = map_sum id fst (Circle_draw Display_screen circ d)"

fun perform_all :: "Display \<Rightarrow> call list \<Rightarrow> panic + Display" where
  "perform_all d [] = Inr d"
| "perform_all d (k # ks) = (case perform d k of Inl p \<Rightarrow> Inl p | Inr d' \<Rightarrow> perform_all d' ks)"

section \<open>Well-formed displays\<close>

text \<open>
  The shape of the matrix that \<^verbatim>\<open>initialize\<close> builds: \<open>maxX\<close> rows of \<open>maxY\<close> cells. The
  fields of a display are written by its own methods only, so every display that was
  initialized has this shape.
\<close>

definition wf_display :: "Display \<Rightarrow> bool" where
  "wf_display d =
     (0 \<le> maxX d \<and> int (length (matrix d)) = maxX d \<and>
      list_all (\<lambda>row. int (length row) = maxY d) (matrix d))"

definition valid_cells :: "Display \<Rightarrow> bool" where
  "valid_cells d = list_all (list_all (\<lambda>c. \<not> colorUnknown c)) (matrix d)"

text \<open>The cell at an index pair that is in range.\<close>

definition cell :: "Display \<Rightarrow> int \<Rightarrow> int \<Rightarrow> Color" where
  "cell d x y = matrix d ! nat x ! nat y"

text \<open>
  \<open>paints d A c d'\<close>: the display \<open>d'\<close> is \<open>d\<close> with the cells of \<open>A\<close> set to \<open>c\<close>; it
  has the size and the shape of \<open>d\<close>, and every other cell is as in \<open>d\<close>.
\<close>

definition paints :: "Display \<Rightarrow> (int \<times> int) set \<Rightarrow> Color \<Rightarrow> Display \<Rightarrow> bool" where
  "paints d A c d' =
     (wf_display d' \<and> maxX d' = maxX d \<and> maxY d' = maxY d \<and>
      (\<forall>x y. 0 \<le> x \<and> x < maxX d \<and> 0 \<le> y \<and> y < maxY d \<longrightarrow>
         cell d' x y = (if (x, y) \<in> A then c else cell d x y)))"

text \<open>The zero value of \<^verbatim>\<open>Display\<close>, and the display that \<^verbatim>\<open>initialize\<close> leaves.\<close>

definition Display_zero :: Display where
  "Display_zero = \<lparr>maxX = 0, maxY = 0, matrix = []\<rparr>"

definition fresh :: "int \<Rightarrow> int \<Rightarrow> Display" where
  "fresh w h = \<lparr>maxX = w, maxY = h, matrix = replicate (nat w) (replicate (nat h) ''white'')\<rparr>"

text \<open>
  The invariant of a display of width \<open>w\<close> and height \<open>h\<close>: the shape above, and every cell
  holds a color of the table.
\<close>

definition inv :: "int \<Rightarrow> int \<Rightarrow> Display \<Rightarrow> bool" where
  "inv w h d = (wf_display d \<and> valid_cells d \<and> maxX d = w \<and> maxY d = h)"

text \<open>
  The text of a snapshot in the words of the specification, to compare \<^verbatim>\<open>screenShot\<close> with:
  the magic line, the line of the width and the height, the line \<open>255\<close>, then one line per
  index \<open>i\<close> of the first axis with the triplets of the cells \<open>(i, 0)\<close>, \<open>(i, 1)\<close>, ...; a triplet
  is three decimal numbers, a space after each.
\<close>

definition ppm_triplet :: "Color \<Rightarrow> string" where
  "ppm_triplet c =
     (case (case colorMap c of None \<Rightarrow> (0, 0, 0) | Some rgb \<Rightarrow> rgb) of
        (r0, r1, r2) \<Rightarrow> format_d r0 @ '' '' @ format_d r1 @ '' '' @ format_d r2 @ '' '')"

definition ppm_line :: "Display \<Rightarrow> int \<Rightarrow> string" where
  "ppm_line d i = concat (map (\<lambda>j. ppm_triplet (cell d i j)) [0..maxY d - 1]) @ [newline]"

definition ppm_text :: "Display \<Rightarrow> string" where
  "ppm_text d =
     ''P3'' @ [newline] @ format_d (maxX d) @ '' '' @ format_d (maxY d) @ [newline] @
     ''255'' @ [newline] @ concat (map (ppm_line d) [0..maxX d - 1])"

text \<open>
  Writing a list of pixels one after another, in the words of the specification, to
  compare the fill loops with: with \<open>abort\<close> the first error of \<^verbatim>\<open>drawPixel\<close> ends the
  writing and is the result; without it every result is dropped and the writing goes on.
  The lists are the pixels of each shape in the order of its loops.
\<close>

fun write_pixels ::
  "bool \<Rightarrow> 's screen \<Rightarrow> Color \<Rightarrow> (int \<times> int) list \<Rightarrow> 's \<Rightarrow> panic + ('s \<times> error option)"
where
  "write_pixels abort scn c [] s = Inr (s, None)"
| "write_pixels abort scn c (p # ps) s =
     (case drawPixel scn s (fst p) (snd p) c of
        Inl q \<Rightarrow> Inl q
      | Inr (s', e) \<Rightarrow> if abort \<and> e \<noteq> None then Inr (s', e) else write_pixels abort scn c ps s')"

definition rect_pixels :: "Rectangle \<Rightarrow> (int \<times> int) list" where
  "rect_pixels r =
     concat (map (\<lambda>x. map (\<lambda>y. (x, y)) [py (ll r)..py (ur r) - 1]) [px (ll r)..px (ur r) - 1])"

definition span_pixels :: "int list \<Rightarrow> int list \<Rightarrow> int \<Rightarrow> int \<Rightarrow> (int \<times> int) list" where
  "span_pixels left right y0 y2 =
     concat (map (\<lambda>yy. map (\<lambda>xx. (xx, yy)) [left ! nat (yy - y0)..right ! nat (yy - y0)]) [y0..y2])"

definition circle_pixels :: "Circle \<Rightarrow> (int \<times> int) list" where
  "circle_pixels circ =
     concat (map (\<lambda>y. concat (map (\<lambda>x. if insideCircle (center circ) \<lparr>px = x, py = y\<rparr>
                                              (float64_of_int (circ_r circ))
                                        then [(x, y)] else [])
                                [0..wrap64 (px (center circ) + circ_r circ) - 1]))
                 [0..wrap64 (py (center circ) + circ_r circ) - 1])"

text \<open>
  An implementation of \<^verbatim>\<open>screen\<close> whose \<^verbatim>\<open>drawPixel\<close> fails on every call and writes
  nothing: the display with that one method replaced. It is the example on which the
  three fill loops are told apart.
\<close>

definition failing_screen :: "Display screen" where
  "failing_screen = Display_screen\<lparr>drawPixel := (\<lambda>s x y c. Inr (s, Some outOfBoundsErr))\<rparr>"

text \<open>A new 12 by 12 display after \<^verbatim>\<open>drawPixel(0, 0, "red")\<close>.\<close>

definition red_corner :: Display where
  "red_corner = (fresh 12 12)\<lparr>matrix := (matrix (fresh 12 12))[0 := (matrix (fresh 12 12) ! 0)[0 := ''red'']]\<rparr>"

section \<open>Properties of the display and of the loops\<close>

lemma index_in_range: "0 \<le> i \<Longrightarrow> i < int (length xs) \<Longrightarrow> index xs i = Inr (xs ! nat i)"
  by (simp add: index_def)

lemma nat_less_length: "0 \<le> x \<Longrightarrow> x < int n \<Longrightarrow> nat x < n"
  by simp

lemma wf_nat_less: "wf_display d \<Longrightarrow> 0 \<le> x \<Longrightarrow> x < maxX d \<Longrightarrow> nat x < length (matrix d)"
  unfolding wf_display_def by linarith

lemma wf_row_length:
  assumes "wf_display d" "0 \<le> x" "x < maxX d"
  shows "int (length (matrix d ! nat x)) = maxY d"
  using assms(1) wf_nat_less [OF assms] by (simp add: wf_display_def list_all_length)

lemma drawPixel_ok:
  assumes "wf_display d" "0 \<le> x" "x < maxX d" "0 \<le> y" "y < maxY d" "\<not> colorUnknown c"
  shows "Display_drawPixel d x y c =
           Inr (d\<lparr>matrix := (matrix d)[nat x := (matrix d ! nat x)[nat y := c]]\<rparr>, None)"
proof -
  have lx: "x < int (length (matrix d))" using assms by (simp add: wf_display_def)
  have ly: "y < int (length (matrix d ! nat x))" using assms by (simp add: wf_row_length)
  show ?thesis
    using assms lx ly by (simp add: Display_drawPixel_def index_in_range)
qed

lemma wf_update:
  assumes "wf_display d"
  shows "wf_display (d\<lparr>matrix := (matrix d)[nat x := (matrix d ! nat x)[nat y := c]]\<rparr>)"
proof (cases "nat x < length (matrix d)")
  case True
  with assms show ?thesis
    by (auto simp: wf_display_def list_all_length nth_list_update)
next
  case False
  with assms show ?thesis
    by (simp add: wf_display_def list_update_beyond)
qed

lemma cell_update:
  assumes "wf_display d" "0 \<le> x" "x < maxX d" "0 \<le> y" "y < maxY d"
    "0 \<le> x'" "x' < maxX d" "0 \<le> y'" "y' < maxY d"
  shows "cell (d\<lparr>matrix := (matrix d)[nat x := (matrix d ! nat x)[nat y := c]]\<rparr>) x' y' =
           (if (x', y') = (x, y) then c else cell d x' y')"
proof -
  have lx: "nat x < length (matrix d)" "nat x' < length (matrix d)"
    using assms by (simp_all add: wf_nat_less)
  have ly: "nat y < length (matrix d ! nat x)"
    using wf_row_length [OF assms(1-3)] assms by simp
  show ?thesis
    using assms lx ly by (auto simp: cell_def nth_list_update)
qed

lemma drawPixel_paints:
  assumes "wf_display d" "0 \<le> x" "x < maxX d" "0 \<le> y" "y < maxY d" "\<not> colorUnknown c"
  shows "\<exists>d'. Display_drawPixel d x y c = Inr (d', None) \<and> paints d {(x, y)} c d'"
  using assms
  by (simp add: drawPixel_ok paints_def wf_update cell_update)

lemma paints_refl: "wf_display d \<Longrightarrow> paints d {} c d"
  by (simp add: paints_def)

lemma paints_trans:
  "paints d A c d' \<Longrightarrow> paints d' B c d'' \<Longrightarrow> paints d (A \<union> B) c d''"
  by (auto simp: paints_def)

lemma for_upto_paints:
  assumes step: "\<And>i s'. lo \<le> i \<Longrightarrow> i < hi \<Longrightarrow> wf_display s' \<Longrightarrow> maxX s' = mx \<Longrightarrow> maxY s' = my \<Longrightarrow>
             \<exists>s''. body i s' = Inr (s'', None) \<and> paints s' (A i) c s''"
    and "wf_display s" "maxX s = mx" "maxY s = my"
  shows "\<exists>s'. for_upto lo hi body s = Inr (s', None) \<and> paints s (\<Union>i\<in>{lo..<hi}. A i) c s'"
  using assms
proof (induction lo hi body s rule: for_upto.induct)
  case (1 i hi body s)
  show ?case
  proof (cases "i < hi")
    case False
    then show ?thesis using "1.prems" by (simp add: for_upto.simps paints_refl)
  next
    case True
    from "1.prems"(1) [of i s] True "1.prems"(2-4)
    obtain s1 where s1: "body i s = Inr (s1, None)" "paints s (A i) c s1" by auto
    have wf1: "wf_display s1" "maxX s1 = mx" "maxY s1 = my"
      using s1(2) "1.prems"(3,4) by (simp_all add: paints_def)
    have "\<exists>s'. for_upto (i + 1) hi body s1 = Inr (s', None) \<and> paints s1 (\<Union>j\<in>{i + 1..<hi}. A j) c s'"
      using "1.IH" [OF True s1(1) refl refl _ wf1] "1.prems"(1) by simp
    then obtain s2 where s2: "for_upto (i + 1) hi body s1 = Inr (s2, None)"
      "paints s1 (\<Union>j\<in>{i + 1..<hi}. A j) c s2" by auto
    have eq: "(\<Union>j\<in>{i..<hi}. A j) = A i \<union> (\<Union>j\<in>{i + 1..<hi}. A j)"
    proof -
      have "{i..<hi} = insert i {i + 1..<hi}" using True by auto
      then show ?thesis by simp
    qed
    have "for_upto i hi body s = Inr (s2, None)"
      using True s1(1) s2(1) by (subst for_upto.simps) simp
    moreover have "paints s (\<Union>j\<in>{i..<hi}. A j) c s2"
      unfolding eq using paints_trans [OF s1(2) s2(2)] .
    ultimately show ?thesis by blast
  qed
qed

lemma Display_screen_simps [simp]:
  "getMaxXY Display_screen = Display_getMaxXY"
  "drawPixel Display_screen = Display_drawPixel"
  "getPixel Display_screen = Display_getPixel"
  by (simp_all add: Display_screen_def)

lemma colorUnknown_iff:
  "colorUnknown c \<longleftrightarrow>
     c \<notin> {''red'', ''green'', ''blue'', ''yellow'', ''orange'', ''purple'', ''brown'', ''black'', ''white''}"
  by (simp add: colorUnknown_def colorMap_def colorTable_def)

lemma wf_fresh: "0 \<le> w \<Longrightarrow> 0 \<le> h \<Longrightarrow> wf_display (fresh w h)"
  by (simp add: wf_display_def fresh_def list_all_length)

lemma dims_fresh [simp]: "maxX (fresh w h) = w" "maxY (fresh w h) = h"
  by (simp_all add: fresh_def)

lemma initialize_fresh:
  "0 \<le> w \<Longrightarrow> 0 \<le> h \<Longrightarrow> Display_initialize d w h = Inr (fresh w h)"
  by (simp add: Display_initialize_def Display_clearScreen_def fresh_def)

lemma cell_fresh:
  "0 \<le> x \<Longrightarrow> x < w \<Longrightarrow> 0 \<le> y \<Longrightarrow> y < h \<Longrightarrow> cell (fresh w h) x y = ''white''"
  by (simp add: cell_def fresh_def)

lemma getPixel_cell:
  assumes "wf_display d" "0 \<le> x" "x < maxX d" "0 \<le> y" "y < maxY d"
  shows "Display_getPixel d x y =
           (if colorUnknown (cell d x y) then Inr ('''', Some colorUnknownErr)
            else Inr (cell d x y, None))"
proof -
  have lx: "x < int (length (matrix d))" using assms by (simp add: wf_display_def)
  have ly: "y < int (length (matrix d ! nat x))" using assms by (simp add: wf_row_length)
  show ?thesis
    using assms lx ly by (simp add: Display_getPixel_def index_in_range cell_def)
qed

lemma getPixel_outside:
  "x < 0 \<or> maxX d \<le> x \<or> y < 0 \<or> maxY d \<le> y \<Longrightarrow> Display_getPixel d x y = Inr ('''', Some outOfBoundsErr)"
  by (auto simp: Display_getPixel_def)

lemma paints_getPixel:
  assumes p: "paints d A c d'" and wf: "wf_display d" and c: "\<not> colorUnknown c"
    and sub: "\<And>x y. (x, y) \<in> A \<Longrightarrow> 0 \<le> x \<and> x < maxX d \<and> 0 \<le> y \<and> y < maxY d"
  shows "Display_getPixel d' x y = (if (x, y) \<in> A then Inr (c, None) else Display_getPixel d x y)"
proof (cases "0 \<le> x \<and> x < maxX d \<and> 0 \<le> y \<and> y < maxY d")
  case True
  have wf': "wf_display d'" "maxX d' = maxX d" "maxY d' = maxY d"
    using p by (simp_all add: paints_def)
  have "cell d' x y = (if (x, y) \<in> A then c else cell d x y)"
    using p True by (simp add: paints_def)
  then show ?thesis
    using True wf wf' c by (simp add: getPixel_cell)
next
  case False
  then have notA: "(x, y) \<notin> A" using sub by blast
  have dims: "maxX d' = maxX d" "maxY d' = maxY d"
    using p by (simp_all add: paints_def)
  have "Display_getPixel d x y = Inr ('''', Some outOfBoundsErr)"
    using False by (intro getPixel_outside) linarith
  moreover have "Display_getPixel d' x y = Inr ('''', Some outOfBoundsErr)"
    using False dims by (intro getPixel_outside) linarith
  ultimately show ?thesis using notA by simp
qed

lemma for_upto_empty: "hi \<le> lo \<Longrightarrow> for_upto lo hi body s = Inr (s, None)"
  by (subst for_upto.simps) simp

lemma for_upto_noop:
  assumes "\<And>i. lo \<le> i \<Longrightarrow> i < hi \<Longrightarrow> body i s = Inr (s, None)"
  shows "for_upto lo hi body s = Inr (s, None)"
  using assms
proof (induction lo hi body s rule: for_upto.induct)
  case (1 i hi body s)
  show ?case
  proof (cases "i < hi")
    case True
    have b: "body i s = Inr (s, None)" using "1.prems" True by simp
    have "for_upto (i + 1) hi body s = Inr (s, None)"
      using "1.IH" [OF True b refl refl] "1.prems" by simp
    then show ?thesis using True b by (subst for_upto.simps) simp
  next
    case False
    then show ?thesis by (simp add: for_upto_empty)
  qed
qed

lemma rect_column_paints:
  assumes "wf_display s" "0 \<le> x" "x < maxX s" "0 \<le> lo" "hi \<le> maxY s" "\<not> colorUnknown c"
  shows "\<exists>s'. for_upto lo hi (\<lambda>y s'. Display_drawPixel s' x y c) s = Inr (s', None) \<and>
              paints s {(x', y). x' = x \<and> lo \<le> y \<and> y < hi} c s'"
proof -
  have "\<exists>s'. for_upto lo hi (\<lambda>y s'. Display_drawPixel s' x y c) s = Inr (s', None) \<and>
              paints s (\<Union>y\<in>{lo..<hi}. {(x, y)}) c s'"
  proof (rule for_upto_paints [where mx = "maxX s" and my = "maxY s"])
    fix i s'
    assume "lo \<le> i" "i < hi" "wf_display s'" "maxX s' = maxX s" "maxY s' = maxY s"
    then show "\<exists>s''. Display_drawPixel s' x i c = Inr (s'', None) \<and> paints s' {(x, i)} c s''"
      using assms by (intro drawPixel_paints) simp_all
  qed (use assms in simp_all)
  moreover have "(\<Union>y\<in>{lo..<hi}. {(x, y)}) = {(x', y). x' = x \<and> lo \<le> y \<and> y < hi}"
    by auto
  ultimately show ?thesis by simp
qed

lemma Rectangle_draw_paints:
  assumes wf: "wf_display d" and c: "\<not> colorUnknown (rect_c r)"
    and b: "0 \<le> px (ll r)" "0 \<le> py (ll r)" "px (ur r) < maxX d" "py (ur r) < maxY d"
  shows "\<exists>d'. Rectangle_draw Display_screen r d = Inr (d', None) \<and>
              paints d {(x, y). px (ll r) \<le> x \<and> x < px (ur r) \<and> py (ll r) \<le> y \<and> y < py (ur r)}
                (rect_c r) d'"
proof -
  let ?body = "\<lambda>x. for_upto (py (ll r)) (py (ur r)) (\<lambda>y s'. Display_drawPixel s' x y (rect_c r))"
  have "\<exists>d'. for_upto (px (ll r)) (px (ur r)) ?body d = Inr (d', None) \<and>
              paints d (\<Union>x\<in>{px (ll r)..<px (ur r)}. {(x', y). x' = x \<and> py (ll r) \<le> y \<and> y < py (ur r)})
                (rect_c r) d'"
  proof (rule for_upto_paints [where mx = "maxX d" and my = "maxY d"])
    fix i s'
    assume "px (ll r) \<le> i" "i < px (ur r)" "wf_display s'" "maxX s' = maxX d" "maxY s' = maxY d"
    then show "\<exists>s''. ?body i s' = Inr (s'', None) \<and>
                 paints s' {(x', y). x' = i \<and> py (ll r) \<le> y \<and> y < py (ur r)} (rect_c r) s''"
      using b c by (intro rect_column_paints) simp_all
  qed (use wf in simp_all)
  moreover have "(\<Union>x\<in>{px (ll r)..<px (ur r)}. {(x', y). x' = x \<and> py (ll r) \<le> y \<and> y < py (ur r)})
      = {(x, y). px (ll r) \<le> x \<and> x < px (ur r) \<and> py (ll r) \<le> y \<and> y < py (ur r)}"
    by auto
  ultimately show ?thesis
    using b c by (simp add: Rectangle_draw_def Display_getMaxXY_def)
qed

lemma getPixel_fresh:
  assumes "0 \<le> w" "0 \<le> h"
  shows "Display_getPixel (fresh w h) x y =
           (if 0 \<le> x \<and> x < w \<and> 0 \<le> y \<and> y < h then Inr (''white'', None)
            else Inr ('''', Some outOfBoundsErr))"
proof (cases "0 \<le> x \<and> x < w \<and> 0 \<le> y \<and> y < h")
  case True
  have m: "maxX (fresh w h) = w" "maxY (fresh w h) = h" by (simp_all add: fresh_def)
  show ?thesis
    using getPixel_cell [OF wf_fresh [OF assms], of x y] True
    by (simp add: m cell_fresh colorUnknown_iff)
next
  case False
  then show ?thesis
    using getPixel_outside [of x "fresh w h" y] by (auto simp: fresh_def)
qed

section \<open>Properties of the machine arithmetic\<close>

lemma wrap64_id: "- (2 ^ 63) \<le> i \<Longrightarrow> i < 2 ^ 63 \<Longrightarrow> wrap64 i = i"
  by (simp add: wrap64_def)

lemma ulp_pos: "0 < ulp x"
  by (simp add: ulp_def)

lemma round_even_of_int: "round_even (of_int k) = k"
  by (simp add: round_even_def)

lemma round_even_Ints: "y \<in> \<int> \<Longrightarrow> of_int (round_even y) = y"
  by (auto elim!: Ints_cases simp: round_even_of_int)

lemma round_even_le: "y \<le> of_int k \<Longrightarrow> round_even y \<le> k"
proof -
  assume a: "y \<le> of_int k"
  then have f: "\<lfloor>y\<rfloor> \<le> k" by (simp add: floor_le_iff)
  show ?thesis
  proof (cases "\<lfloor>y\<rfloor> = k")
    case True
    then have "y = of_int k" using a by linarith
    then show ?thesis by (simp add: round_even_of_int)
  next
    case False
    with f have "\<lfloor>y\<rfloor> + 1 \<le> k" by simp
    then show ?thesis by (simp add: round_even_def Let_def)
  qed
qed

lemma round_even_ge: "of_int k \<le> y \<Longrightarrow> k \<le> round_even y"
proof -
  assume "of_int k \<le> y"
  then have "k \<le> \<lfloor>y\<rfloor>" by (simp add: le_floor_iff)
  then show ?thesis by (simp add: round_even_def Let_def)
qed

lemma floor_log_le: "0 < x \<Longrightarrow> 2 powr of_int \<lfloor>log 2 x\<rfloor> \<le> x"
proof -
  assume x: "0 < x"
  have "2 powr of_int \<lfloor>log 2 x\<rfloor> \<le> 2 powr log 2 x"
    by (simp add: powr_le_cancel_iff)
  then show ?thesis using x by simp
qed

lemma floor_log_less: "0 < x \<Longrightarrow> x < 2 ^ n \<Longrightarrow> \<lfloor>log 2 x\<rfloor> < int n"
proof -
  assume x: "0 < x" "x < 2 ^ n"
  have "log 2 x < real n \<longleftrightarrow> x < 2 powr real n"
    using x(1) by (intro log_less_iff) simp_all
  moreover have "2 powr real n = (2::real) ^ n" by (simp add: powr_realpow)
  ultimately have "log 2 x < real n" using x(2) by simp
  then show ?thesis by (simp add: floor_less_iff)
qed

lemma round64_exact: "x / ulp x \<in> \<int> \<Longrightarrow> round64 x = x"
  using ulp_pos [of x] by (simp add: round64_def round_even_Ints)

lemma ulp_inverse_power:
  assumes "x \<noteq> 0" "\<bar>x\<bar> < 2 ^ 53"
  shows "\<exists>n. ulp x = 1 / 2 ^ n"
proof -
  have "\<lfloor>log 2 \<bar>x\<bar>\<rfloor> < 53" using floor_log_less [of "\<bar>x\<bar>" 53] assms by simp
  then have le: "max \<lfloor>log 2 \<bar>x\<bar>\<rfloor> (- 1022) - 52 \<le> 0" by simp
  define n where "n = nat (- (max \<lfloor>log 2 \<bar>x\<bar>\<rfloor> (- 1022) - 52))"
  have "of_int (max \<lfloor>log 2 \<bar>x\<bar>\<rfloor> (- 1022) - 52) = - real n"
    using le by (simp add: n_def)
  then have "ulp x = 2 powr (- real n)" by (simp add: ulp_def)
  also have "\<dots> = 1 / 2 ^ n" by (simp add: powr_minus powr_realpow inverse_eq_divide)
  finally show ?thesis by blast
qed

lemma round64_int:
  assumes "x \<in> \<int>" "\<bar>x\<bar> < 2 ^ 53"
  shows "round64 x = x"
proof (cases "x = 0")
  case True
  then show ?thesis by (simp add: round64_def)
next
  case False
  then obtain n where "ulp x = 1 / 2 ^ n" using ulp_inverse_power assms by blast
  then have "x / ulp x = x * 2 ^ n" by simp
  then have "x / ulp x \<in> \<int>" using assms(1) by simp
  then show ?thesis by (rule round64_exact)
qed

lemma to_float64_int:
  assumes "x \<in> \<int>" "\<bar>x\<bar> < 2 ^ 53"
  shows "to_float64 x = Finite x"
proof -
  have "(2::real) ^ 53 < 2 ^ 1024" by (simp add: power_strict_increasing_iff del: power_numeral)
  then have "\<bar>x\<bar> < 2 ^ 1024" using assms(2) by linarith
  then have "\<not> 2 ^ 1024 \<le> x" "\<not> x \<le> - (2 ^ 1024)" by linarith+
  moreover have "round64 x = x" using assms by (rule round64_int)
  ultimately show ?thesis by (simp add: to_float64_def Let_def del: power_numeral)
qed

lemma float64_of_int_exact: "\<bar>i\<bar> < 2 ^ 53 \<Longrightarrow> float64_of_int i = Finite (of_int i)"
proof -
  assume "\<bar>i\<bar> < 2 ^ 53"
  then have "real_of_int \<bar>i\<bar> < real_of_int (2 ^ 53)" by (simp only: of_int_less_iff)
  then have "\<bar>real_of_int i\<bar> < 2 ^ 53" by simp
  then show ?thesis by (simp add: float64_of_int_def to_float64_int)
qed

lemma int_of_float64_of_int:
  "- (2 ^ 63) \<le> i \<Longrightarrow> i < 2 ^ 63 \<Longrightarrow> int_of_float64 (Finite (of_int i)) = i"
  by (simp add: int_of_float64_def Let_def)

lemma round64_le_int:
  assumes "0 \<le> x" "x \<le> of_int k" "real_of_int k < 2 ^ 53"
  shows "round64 x \<le> of_int k"
proof (cases "x = 0")
  case True
  then show ?thesis using assms by (simp add: round64_def)
next
  case False
  then have "\<bar>x\<bar> < 2 ^ 53" using assms by linarith
  then obtain n where u: "ulp x = 1 / 2 ^ n" using ulp_inverse_power False by blast
  have "x / ulp x \<le> of_int (k * 2 ^ n)" using assms(2) u by simp
  then have "round_even (x / ulp x) \<le> k * 2 ^ n" by (rule round_even_le)
  then have "real_of_int (round_even (x / ulp x)) \<le> real_of_int (k * 2 ^ n)"
    by (simp only: of_int_le_iff)
  then have "real_of_int (round_even (x / ulp x)) * ulp x \<le> real_of_int (k * 2 ^ n) * ulp x"
    using ulp_pos [of x] by (simp only: mult_le_cancel_right_pos)
  also have "real_of_int (k * 2 ^ n) * ulp x = of_int k" using u by simp
  finally show ?thesis using False by (simp add: round64_def)
qed

lemma round64_gt_int:
  assumes k: "0 \<le> k" "k < 2 ^ 26" and x: "of_int k + 1 / 2 ^ 27 \<le> x"
  shows "of_int k < round64 x"
proof -
  have kr: "0 \<le> real_of_int k" "real_of_int k < 2 ^ 26" using k by simp_all
  have xpos: "0 < x" "1 / 2 ^ 27 \<le> x" using x kr by simp_all
  define f where "f = \<lfloor>log 2 \<bar>x\<bar>\<rfloor>"
  have fx: "2 powr of_int f \<le> x" using floor_log_le [of x] xpos by (simp add: f_def)
  have "- 27 \<le> log 2 x"
  proof -
    have "(2::real) powr (- 27) = 1 / 2 ^ 27"
      by (simp add: powr_minus inverse_eq_divide del: power_numeral)
    then have "2 powr (- 27) \<le> x" using xpos by simp
    moreover have "- 27 \<le> log 2 x \<longleftrightarrow> 2 powr (- 27) \<le> x"
      using xpos by (intro le_log_iff) simp_all
    ultimately show ?thesis by simp
  qed
  then have flo: "- 27 \<le> f" using xpos by (simp add: f_def le_floor_iff)
  then have u: "ulp x = 2 powr of_int (f - 52)" using xpos by (simp add: ulp_def f_def max_def)
  have r: "round64 x = of_int (round_even (x / ulp x)) * ulp x"
    using xpos by (simp add: round64_def)
  show ?thesis
  proof (cases "26 \<le> f")
    case True
    have "2 powr of_int f / ulp x = 2 powr 52"
      unfolding u by (simp add: powr_diff)
    also have "\<dots> = of_int (2 ^ 52)" by (simp add: powr_numeral del: power_numeral)
    finally have "of_int (2 ^ 52) \<le> x / ulp x"
      using fx ulp_pos [of x] by (metis divide_right_mono less_imp_le)
    then have "2 ^ 52 \<le> round_even (x / ulp x)" by (rule round_even_ge)
    then have "real_of_int (2 ^ 52) \<le> real_of_int (round_even (x / ulp x))"
      by (simp only: of_int_le_iff)
    then have "real_of_int (2 ^ 52) * ulp x \<le> round64 x"
      unfolding r using ulp_pos [of x] by (simp only: mult_le_cancel_right_pos)
    moreover have "real_of_int (2 ^ 52) * ulp x = 2 powr of_int f"
    proof -
      have "real_of_int (2 ^ 52) = 2 powr 52" by (simp add: powr_numeral del: power_numeral)
      then show ?thesis unfolding u by (simp add: powr_diff del: power_numeral)
    qed
    moreover have "(2::real) ^ 26 \<le> 2 powr of_int f"
    proof -
      have "(2::real) powr of_int 26 \<le> 2 powr of_int f"
        using True by (intro powr_mono) simp_all
      then show ?thesis by simp
    qed
    ultimately show ?thesis using kr by linarith
  next
    case False
    then have f25: "f \<le> 25" by simp
    define n where "n = nat (52 - f)"
    have "of_int (f - 52) = - real n" using f25 by (simp add: n_def)
    then have "ulp x = 2 powr (- real n)" unfolding u by simp
    then have un: "ulp x = 1 / 2 ^ n" by (simp add: powr_minus powr_realpow inverse_eq_divide)
    have "27 \<le> n" using f25 by (simp add: n_def)
    then have "(2::real) ^ 27 \<le> 2 ^ n" by (simp add: power_increasing del: power_numeral)
    then have ule: "ulp x \<le> 1 / 2 ^ 27" unfolding un by (simp add: frac_le del: power_numeral)
    have "of_int k + ulp x \<le> x" using x ule by linarith
    then have "(of_int k + ulp x) / ulp x \<le> x / ulp x"
      using ulp_pos [of x] by (simp only: divide_right_mono less_imp_le)
    moreover have "(of_int k + ulp x) / ulp x = of_int (k * 2 ^ n + 1)"
      unfolding un by (simp add: field_simps)
    ultimately have "of_int (k * 2 ^ n + 1) \<le> x / ulp x" by simp
    then have "k * 2 ^ n + 1 \<le> round_even (x / ulp x)" by (rule round_even_ge)
    then have "real_of_int (k * 2 ^ n + 1) \<le> real_of_int (round_even (x / ulp x))"
      by (simp only: of_int_le_iff)
    then have "real_of_int (k * 2 ^ n + 1) * ulp x \<le> round64 x"
      unfolding r using ulp_pos [of x] by (simp only: mult_le_cancel_right_pos)
    moreover have "real_of_int (k * 2 ^ n + 1) * ulp x = of_int k + ulp x"
      unfolding un by (simp add: field_simps)
    ultimately show ?thesis using ulp_pos [of x] by linarith
  qed
qed

lemma sqrt_gap:
  assumes "0 \<le> k" "k < 2 ^ 26" "k * k < n"
  shows "real_of_int k + 1 / 2 ^ 27 \<le> sqrt (of_int n)"
proof -
  have k1: "real_of_int k \<le> 2 ^ 26 - 1"
  proof -
    have "k \<le> 2 ^ 26 - 1" using assms(2) by simp
    then have "real_of_int k \<le> real_of_int (2 ^ 26 - 1)" by (simp only: of_int_le_iff)
    then show ?thesis by simp
  qed
  have k0: "0 \<le> real_of_int k" using assms(1) by simp
  have "k * k + 1 \<le> n" using assms(3) by simp
  then have "real_of_int (k * k + 1) \<le> real_of_int n" by (simp only: of_int_le_iff)
  then have n: "real_of_int k * real_of_int k + 1 \<le> of_int n" by simp
  have "(real_of_int k + 1 / 2 ^ 27)\<^sup>2 = real_of_int k * real_of_int k + real_of_int k / 2 ^ 26 + 1 / 2 ^ 54"
    by (simp add: power2_eq_square algebra_simps)
  also have "\<dots> \<le> real_of_int k * real_of_int k + 1"
    using k1 by simp
  finally have "(real_of_int k + 1 / 2 ^ 27)\<^sup>2 \<le> of_int n" using n by linarith
  then show ?thesis by (rule real_le_rsqrt)
qed

lemma round64_sqrt_le_iff:
  assumes "0 \<le> k" "k < 2 ^ 26" "0 \<le> n"
  shows "round64 (sqrt (of_int n)) \<le> of_int k \<longleftrightarrow> n \<le> k * k"
proof
  assume le: "n \<le> k * k"
  have "real_of_int n \<le> real_of_int (k * k)" using le by (simp only: of_int_le_iff)
  then have "real_of_int n \<le> (real_of_int k)\<^sup>2" by (simp add: power2_eq_square)
  then have "sqrt (of_int n) \<le> of_int k" using assms(1) by (intro real_le_lsqrt) simp_all
  moreover have "real_of_int k < 2 ^ 53"
  proof -
    have "real_of_int k < real_of_int (2 ^ 26)" using assms(2) by (simp only: of_int_less_iff)
    then show ?thesis by simp
  qed
  ultimately show "round64 (sqrt (of_int n)) \<le> of_int k"
    using assms(3) by (intro round64_le_int) simp_all
next
  assume r: "round64 (sqrt (of_int n)) \<le> of_int k"
  show "n \<le> k * k"
  proof (rule ccontr)
    assume "\<not> n \<le> k * k"
    then have "k * k < n" by simp
    then have "real_of_int k + 1 / 2 ^ 27 \<le> sqrt (of_int n)" using assms by (intro sqrt_gap)
    then have "of_int k < round64 (sqrt (of_int n))" using assms by (intro round64_gt_int)
    with r show False by simp
  qed
qed

lemma ulp_large:
  assumes "2 ^ n \<le> \<bar>x\<bar>"
  shows "\<exists>f. int n \<le> f \<and> ulp x = 2 powr of_int (f - 52) \<and> 2 powr of_int f \<le> \<bar>x\<bar>"
proof -
  have "(0::real) < 2 ^ n" by simp
  then have pos: "0 < \<bar>x\<bar>" using assms by linarith
  define f where "f = \<lfloor>log 2 \<bar>x\<bar>\<rfloor>"
  have "2 powr real n \<le> \<bar>x\<bar>" using assms by (simp add: powr_realpow)
  then have "real n \<le> log 2 \<bar>x\<bar>" using pos by (simp add: le_log_iff)
  then have nf: "int n \<le> f" by (simp add: f_def le_floor_iff)
  then have "max f (- 1022) = f" by simp
  then have "ulp x = 2 powr of_int (f - 52)" unfolding ulp_def f_def [symmetric] by simp
  moreover have "2 powr of_int f \<le> \<bar>x\<bar>" using floor_log_le [OF pos] by (simp add: f_def)
  ultimately show ?thesis using nf by blast
qed

lemma round64_ge_power:
  assumes "2 ^ n \<le> x"
  shows "2 ^ n \<le> round64 x"
proof -
  have "(0::real) < 2 ^ n" by simp
  then have xpos: "0 < x" using assms by linarith
  obtain f where f: "int n \<le> f" "ulp x = 2 powr of_int (f - 52)" "2 powr of_int f \<le> \<bar>x\<bar>"
    using ulp_large [of n x] assms xpos by auto
  have "2 powr of_int f / ulp x = 2 powr 52" unfolding f(2) by (simp add: powr_diff)
  also have "\<dots> = of_int (2 ^ 52)" by (simp add: powr_numeral del: power_numeral)
  finally have "of_int (2 ^ 52) \<le> x / ulp x"
    using f(3) xpos ulp_pos [of x] by (metis abs_of_pos divide_right_mono less_imp_le)
  then have "2 ^ 52 \<le> round_even (x / ulp x)" by (rule round_even_ge)
  then have "real_of_int (2 ^ 52) \<le> real_of_int (round_even (x / ulp x))"
    by (simp only: of_int_le_iff)
  then have "real_of_int (2 ^ 52) * ulp x \<le> real_of_int (round_even (x / ulp x)) * ulp x"
    using ulp_pos [of x] by (intro mult_right_mono) simp_all
  moreover have "round64 x = real_of_int (round_even (x / ulp x)) * ulp x"
    using xpos by (simp add: round64_def)
  ultimately have "real_of_int (2 ^ 52) * ulp x \<le> round64 x" by simp
  moreover have "real_of_int (2 ^ 52) * ulp x = 2 powr of_int f"
  proof -
    have "real_of_int (2 ^ 52) = 2 powr 52" by (simp add: powr_numeral del: power_numeral)
    then show ?thesis unfolding f(2) by (simp add: powr_diff del: power_numeral)
  qed
  moreover have "(2::real) ^ n \<le> 2 powr of_int f"
  proof -
    have "(2::real) powr of_int (int n) \<le> 2 powr of_int f" using f(1) by (intro powr_mono) simp_all
    then show ?thesis by (simp add: powr_realpow)
  qed
  ultimately show ?thesis by linarith
qed

lemma round64_le_neg_power:
  assumes "x \<le> - (2 ^ n)"
  shows "round64 x \<le> - (2 ^ n)"
proof -
  have "(0::real) < 2 ^ n" by simp
  then have xneg: "x < 0" using assms by linarith
  obtain f where f: "int n \<le> f" "ulp x = 2 powr of_int (f - 52)" "2 powr of_int f \<le> \<bar>x\<bar>"
    using ulp_large [of n x] assms xneg by auto
  have "2 powr of_int f / ulp x = 2 powr 52" unfolding f(2) by (simp add: powr_diff)
  also have "\<dots> = of_int (2 ^ 52)" by (simp add: powr_numeral del: power_numeral)
  finally have "of_int (2 ^ 52) \<le> \<bar>x\<bar> / ulp x"
    using f(3) ulp_pos [of x] by (metis divide_right_mono less_imp_le)
  then have "x / ulp x \<le> of_int (- (2 ^ 52))"
    using xneg by (simp del: power_numeral of_int_numeral of_int_power add: abs_of_neg)
  then have "round_even (x / ulp x) \<le> - (2 ^ 52)" by (rule round_even_le)
  then have "real_of_int (round_even (x / ulp x)) \<le> real_of_int (- (2 ^ 52))"
    by (simp only: of_int_le_iff)
  then have "real_of_int (round_even (x / ulp x)) * ulp x \<le> real_of_int (- (2 ^ 52)) * ulp x"
    using ulp_pos [of x] by (intro mult_right_mono) simp_all
  moreover have "round64 x = real_of_int (round_even (x / ulp x)) * ulp x"
    using xneg by (simp add: round64_def)
  ultimately have "round64 x \<le> real_of_int (- (2 ^ 52)) * ulp x" by simp
  moreover have "real_of_int (- (2 ^ 52)) * ulp x = - (2 powr of_int f)"
  proof -
    have "real_of_int (- (2 ^ 52)) = - (2 powr 52)" by (simp add: powr_numeral del: power_numeral)
    then show ?thesis unfolding f(2) by (simp add: powr_diff del: power_numeral)
  qed
  moreover have "(2::real) ^ n \<le> 2 powr of_int f"
  proof -
    have "(2::real) powr of_int (int n) \<le> 2 powr of_int f" using f(1) by (intro powr_mono) simp_all
    then show ?thesis by (simp add: powr_realpow)
  qed
  ultimately show ?thesis by linarith
qed

lemma round64_nonneg: "0 \<le> x \<Longrightarrow> 0 \<le> round64 x"
proof -
  assume x: "0 \<le> x"
  have "real_of_int 0 \<le> x / ulp x" using x ulp_pos [of x] by simp
  then have "0 \<le> round_even (x / ulp x)" by (rule round_even_ge)
  then show ?thesis using ulp_pos [of x] by (simp add: round64_def)
qed

text \<open>A value that is not representable: the number nearest to one tenth.\<close>

lemma floor_log_eqI:
  assumes "0 < x" "2 powr of_int k \<le> x" "x < 2 powr of_int (k + 1)"
  shows "\<lfloor>log 2 x\<rfloor> = k"
proof -
  have "of_int k \<le> log 2 x" using assms by (simp add: le_log_iff)
  moreover have "log 2 x < of_int (k + 1)" using assms by (simp add: log_less_iff)
  ultimately show ?thesis by linarith
qed

lemma round64_tenth: "round64 (1 / 10) = 3602879701896397 / 36028797018963968"
proof -
  have p4: "(2::real) powr of_int (- 4) = 1 / 16" and p3: "(2::real) powr of_int (- 4 + 1) = 1 / 8"
    by (simp_all add: powr_minus inverse_eq_divide)
  have "\<lfloor>log 2 \<bar>1 / 10 :: real\<bar>\<rfloor> = - 4"
  proof (rule floor_log_eqI)
    show "0 < \<bar>1 / 10 :: real\<bar>" by simp
    show "2 powr of_int (- 4) \<le> \<bar>1 / 10 :: real\<bar>" unfolding p4 by simp
    show "\<bar>1 / 10 :: real\<bar> < 2 powr of_int (- 4 + 1)" unfolding p3 by simp
  qed
  then have "ulp (1 / 10) = 2 powr (- 56)" by (simp add: ulp_def)
  also have "\<dots> = 1 / 2 ^ 56"
    by (simp add: powr_minus inverse_eq_divide del: power_numeral)
  finally have u: "ulp (1 / 10) = 1 / 72057594037927936" by simp
  have "round_even (1 / 10 / (1 / 72057594037927936)) = 7205759403792794"
    by (simp add: round_even_def Let_def)
  then show ?thesis by (simp add: round64_def u)
qed

section \<open>Properties of the circle\<close>

lemma square_less_2_52:
  assumes "\<bar>a\<bar> < (2::int) ^ 26"
  shows "a * a < 2 ^ 52" "0 \<le> a * a"
proof -
  have "\<bar>a\<bar> * \<bar>a\<bar> \<le> (2 ^ 26 - 1) * (2 ^ 26 - 1)"
    using assms by (intro mult_mono) simp_all
  moreover have "\<bar>a\<bar> * \<bar>a\<bar> = a * a" by (simp add: abs_mult_self_eq)
  ultimately show "a * a < 2 ^ 52" by simp
  show "0 \<le> a * a" by simp
qed

lemma fmul_self_exact:
  assumes "\<bar>a\<bar> < (2::int) ^ 26"
  shows "fmul (float64_of_int a) (float64_of_int a) = Finite (of_int (a * a))"
proof -
  have "\<bar>a\<bar> < 2 ^ 53" using assms by simp
  then have f: "float64_of_int a = Finite (of_int a)" by (rule float64_of_int_exact)
  have "\<bar>a * a\<bar> < 2 ^ 53" using square_less_2_52 [OF assms] by simp
  then have "float64_of_int (a * a) = Finite (of_int (a * a))" by (rule float64_of_int_exact)
  then have g: "to_float64 (of_int a * of_int a) = Finite (of_int (a * a))"
    by (simp add: float64_of_int_def)
  show ?thesis unfolding f by (simp add: g)
qed

lemma insideCircle_exact:
  assumes a: "\<bar>px cen - px tile\<bar> < 2 ^ 26" and b: "\<bar>py cen - py tile\<bar> < 2 ^ 26"
    and r: "0 \<le> r" "r < 2 ^ 26"
  shows "insideCircle cen tile (float64_of_int r) \<longleftrightarrow>
           (px cen - px tile) * (px cen - px tile) + (py cen - py tile) * (py cen - py tile) \<le> r * r"
proof -
  let ?a = "px cen - px tile" and ?b = "py cen - py tile"
  have wa: "wrap64 ?a = ?a" using a by (intro wrap64_id) simp_all
  have wb: "wrap64 ?b = ?b" using b by (intro wrap64_id) simp_all
  have n: "0 \<le> ?a * ?a + ?b * ?b" "\<bar>?a * ?a + ?b * ?b\<bar> < 2 ^ 53"
    using square_less_2_52 [OF a] square_less_2_52 [OF b] by simp_all
  have "float64_of_int (?a * ?a + ?b * ?b) = Finite (of_int (?a * ?a + ?b * ?b))"
    using n(2) by (rule float64_of_int_exact)
  then have s: "fadd (Finite (of_int (?a * ?a))) (Finite (of_int (?b * ?b)))
                = Finite (of_int (?a * ?a + ?b * ?b))"
    by (simp add: float64_of_int_def)
  have rr: "float64_of_int r = Finite (of_int r)" using r by (intro float64_of_int_exact) simp
  have q: "fsqrt (Finite (of_int (?a * ?a + ?b * ?b)))
           = Finite (round64 (sqrt (of_int (?a * ?a + ?b * ?b))))"
  proof -
    have "\<not> real_of_int (?a * ?a + ?b * ?b) < 0"
      unfolding of_int_less_0_iff using n(1) by linarith
    then show ?thesis by (simp only: fsqrt.simps if_False)
  qed
  have "insideCircle cen tile (float64_of_int r) \<longleftrightarrow>
          round64 (sqrt (of_int (?a * ?a + ?b * ?b))) \<le> of_int r"
    unfolding insideCircle_def Let_def wa wb fmul_self_exact [OF a] fmul_self_exact [OF b] s q rr
    by simp
  then show ?thesis using round64_sqrt_le_iff [OF r n(1)] by simp
qed

lemma to_float64_big_pos:
  assumes "2 ^ n \<le> x"
  shows "to_float64 x = PosInf \<or> (\<exists>A. to_float64 x = Finite A \<and> 2 ^ n \<le> A)"
proof -
  have "2 ^ n \<le> round64 x" using assms by (rule round64_ge_power)
  moreover have "(0::real) < 2 ^ n" by simp
  moreover have "(0::real) < 2 ^ 1024" by (simp del: power_numeral)
  ultimately have "\<not> round64 x \<le> - (2 ^ 1024)" by linarith
  then show ?thesis using \<open>2 ^ n \<le> round64 x\<close> by (simp add: to_float64_def Let_def del: power_numeral)
qed

lemma to_float64_big_neg:
  assumes "x \<le> - (2 ^ n)"
  shows "to_float64 x = NegInf \<or> (\<exists>A. to_float64 x = Finite A \<and> A \<le> - (2 ^ n))"
proof -
  have r: "round64 x \<le> - (2 ^ n)" using assms by (rule round64_le_neg_power)
  moreover have "(0::real) < 2 ^ n" "(0::real) < 2 ^ 1024" by (simp_all del: power_numeral)
  ultimately have "\<not> 2 ^ 1024 \<le> round64 x" by linarith
  then show ?thesis using r by (simp add: to_float64_def Let_def del: power_numeral)
qed

lemma to_float64_nonneg:
  assumes "0 \<le> x"
  shows "to_float64 x = PosInf \<or> (\<exists>A. to_float64 x = Finite A \<and> 0 \<le> A)"
proof -
  have r: "0 \<le> round64 x" using assms by (rule round64_nonneg)
  moreover have "(0::real) < 2 ^ 1024" by (simp del: power_numeral)
  ultimately have "\<not> round64 x \<le> - (2 ^ 1024)" by linarith
  then show ?thesis using r by (simp add: to_float64_def Let_def del: power_numeral)
qed

lemma to_float64_cases:
  "to_float64 x = PosInf \<or> to_float64 x = NegInf \<or> (\<exists>A. to_float64 x = Finite A)"
  by (simp add: to_float64_def Let_def del: power_numeral)

lemma square_ge_2_52:
  fixes A :: real
  assumes "2 ^ 26 \<le> \<bar>A\<bar>"
  shows "2 ^ 52 \<le> A * A"
proof -
  have "(2 ^ 26) * (2 ^ 26) \<le> \<bar>A\<bar> * \<bar>A\<bar>" using assms by (intro mult_mono) simp_all
  then show ?thesis by (simp add: abs_mult_self_eq)
qed

lemma fmul_self_big:
  assumes "2 ^ 26 \<le> \<bar>a\<bar>"
  shows "fmul (float64_of_int a) (float64_of_int a) = PosInf \<or>
         (\<exists>P. fmul (float64_of_int a) (float64_of_int a) = Finite P \<and> 2 ^ 52 \<le> P)"
proof (cases "0 \<le> a")
  case True
  then have "2 ^ 26 \<le> a" using assms by simp
  then have "real_of_int (2 ^ 26) \<le> real_of_int a" by (simp only: of_int_le_iff)
  then have "2 ^ 26 \<le> real_of_int a" by simp
  then consider "float64_of_int a = PosInf" | A where "float64_of_int a = Finite A" "2 ^ 26 \<le> A"
    using to_float64_big_pos [of 26 "real_of_int a"] by (auto simp: float64_of_int_def)
  then show ?thesis
  proof cases
    case 1
    then show ?thesis by simp
  next
    case 2
    then have "2 ^ 52 \<le> A * A" by (intro square_ge_2_52) simp
    then show ?thesis using to_float64_big_pos [of 52 "A * A"] 2(1) by simp
  qed
next
  case False
  then have "a \<le> - (2 ^ 26)" using assms by simp
  then have "real_of_int a \<le> real_of_int (- (2 ^ 26))" by (simp only: of_int_le_iff)
  then have "real_of_int a \<le> - (2 ^ 26)" by simp
  then consider "float64_of_int a = NegInf" | A where "float64_of_int a = Finite A" "A \<le> - (2 ^ 26)"
    using to_float64_big_neg [of "real_of_int a" 26] by (auto simp: float64_of_int_def)
  then show ?thesis
  proof cases
    case 1
    then show ?thesis by simp
  next
    case 2
    then have "2 ^ 52 \<le> A * A" by (intro square_ge_2_52) simp
    then show ?thesis using to_float64_big_pos [of 52 "A * A"] 2(1) by simp
  qed
qed

lemma fmul_self_nonneg:
  "fmul (float64_of_int b) (float64_of_int b) = PosInf \<or>
   (\<exists>Q. fmul (float64_of_int b) (float64_of_int b) = Finite Q \<and> 0 \<le> Q)"
proof -
  consider "float64_of_int b = PosInf" | "float64_of_int b = NegInf"
    | B where "float64_of_int b = Finite B"
    using to_float64_cases [of "real_of_int b"] by (auto simp: float64_of_int_def)
  then show ?thesis
  proof cases
    case 3
    then show ?thesis using to_float64_nonneg [of "B * B"] by simp
  qed simp_all
qed

lemma fadd_big:
  assumes "p = PosInf \<or> (\<exists>P. p = Finite P \<and> 2 ^ 52 \<le> P)"
    and "q = PosInf \<or> (\<exists>Q. q = Finite Q \<and> 0 \<le> Q)"
  shows "fadd p q = PosInf \<or> (\<exists>S. fadd p q = Finite S \<and> 2 ^ 52 \<le> S)"
    and "fadd q p = PosInf \<or> (\<exists>S. fadd q p = Finite S \<and> 2 ^ 52 \<le> S)"
proof -
  have "(fadd p q = PosInf \<or> (\<exists>S. fadd p q = Finite S \<and> 2 ^ 52 \<le> S)) \<and>
        (fadd q p = PosInf \<or> (\<exists>S. fadd q p = Finite S \<and> 2 ^ 52 \<le> S))"
  proof (cases "p = PosInf \<or> q = PosInf")
    case True
    then show ?thesis using assms by auto
  next
    case False
    then obtain P Q where pq: "p = Finite P" "2 ^ 52 \<le> P" "q = Finite Q" "0 \<le> Q"
      using assms by auto
    then have "2 ^ 52 \<le> P + Q" "2 ^ 52 \<le> Q + P" by simp_all
    then show ?thesis
      using to_float64_big_pos [of 52 "P + Q"] to_float64_big_pos [of 52 "Q + P"] pq by simp
  qed
  then show "fadd p q = PosInf \<or> (\<exists>S. fadd p q = Finite S \<and> 2 ^ 52 \<le> S)"
    and "fadd q p = PosInf \<or> (\<exists>S. fadd q p = Finite S \<and> 2 ^ 52 \<le> S)" by simp_all
qed

lemma fsqrt_big:
  assumes "s = PosInf \<or> (\<exists>S. s = Finite S \<and> 2 ^ 52 \<le> S)"
  shows "fsqrt s = PosInf \<or> (\<exists>T. fsqrt s = Finite T \<and> 2 ^ 26 \<le> T)"
proof (cases "s = PosInf")
  case True
  then show ?thesis by simp
next
  case False
  then obtain S where S: "s = Finite S" "2 ^ 52 \<le> S" using assms by auto
  have "sqrt ((2 ^ 26)\<^sup>2) \<le> sqrt S"
    using S(2) by (intro real_sqrt_le_mono) (simp add: power2_eq_square)
  then have "2 ^ 26 \<le> sqrt S" by simp
  then have "2 ^ 26 \<le> round64 (sqrt S)" by (rule round64_ge_power)
  moreover have "\<not> S < 0" using S(2) by simp
  ultimately show ?thesis using S(1) by simp
qed

lemma fle_big:
  assumes "v = PosInf \<or> (\<exists>T. v = Finite T \<and> 2 ^ 26 \<le> T)" "r < 2 ^ 26"
  shows "\<not> fle v (Finite r)"
  using assms by auto

lemma insideCircle_far:
  assumes far: "2 ^ 26 \<le> \<bar>wrap64 (px cen - px tile)\<bar> \<or> 2 ^ 26 \<le> \<bar>wrap64 (py cen - py tile)\<bar>"
    and r: "0 \<le> r" "r < 2 ^ 26"
  shows "\<not> insideCircle cen tile (float64_of_int r)"
proof -
  let ?dx = "float64_of_int (wrap64 (px cen - px tile))"
  let ?dy = "float64_of_int (wrap64 (py cen - py tile))"
  have rr: "float64_of_int r = Finite (of_int r)" using r by (intro float64_of_int_exact) simp
  have rl: "real_of_int r < 2 ^ 26"
  proof -
    have "real_of_int r < real_of_int (2 ^ 26)" using r(2) by (simp only: of_int_less_iff)
    then show ?thesis by simp
  qed
  have "fadd (fmul ?dx ?dx) (fmul ?dy ?dy) = PosInf \<or>
        (\<exists>S. fadd (fmul ?dx ?dx) (fmul ?dy ?dy) = Finite S \<and> 2 ^ 52 \<le> S)"
    using far
  proof
    assume "2 ^ 26 \<le> \<bar>wrap64 (px cen - px tile)\<bar>"
    then show ?thesis by (intro fadd_big(1) fmul_self_big fmul_self_nonneg)
  next
    assume "2 ^ 26 \<le> \<bar>wrap64 (py cen - py tile)\<bar>"
    then show ?thesis by (intro fadd_big(2) fmul_self_big fmul_self_nonneg)
  qed
  then have "\<not> fle (fsqrt (fadd (fmul ?dx ?dx) (fmul ?dy ?dy))) (Finite (of_int r))"
    using rl by (intro fle_big fsqrt_big)
  then show ?thesis by (simp add: insideCircle_def Let_def rr)
qed

lemma insideCircle_iff:
  assumes a: "\<bar>px cen - px tile\<bar> < 2 ^ 63" and b: "\<bar>py cen - py tile\<bar> < 2 ^ 63"
    and r: "0 \<le> r" "r < 2 ^ 26"
  shows "insideCircle cen tile (float64_of_int r) \<longleftrightarrow>
           (px cen - px tile) * (px cen - px tile) + (py cen - py tile) * (py cen - py tile) \<le> r * r"
proof (cases "\<bar>px cen - px tile\<bar> < 2 ^ 26 \<and> \<bar>py cen - py tile\<bar> < 2 ^ 26")
  case True
  then show ?thesis using r by (intro insideCircle_exact) simp_all
next
  case False
  let ?a = "px cen - px tile" and ?b = "py cen - py tile"
  have wa: "wrap64 ?a = ?a" using a by (intro wrap64_id) simp_all
  have wb: "wrap64 ?b = ?b" using b by (intro wrap64_id) simp_all
  have far: "2 ^ 26 \<le> \<bar>?a\<bar> \<or> 2 ^ 26 \<le> \<bar>?b\<bar>" using False by linarith
  have "\<not> insideCircle cen tile (float64_of_int r)"
    using far r by (intro insideCircle_far) (simp_all add: wa wb)
  moreover have "\<not> ?a * ?a + ?b * ?b \<le> r * r"
  proof -
    have rr: "r * r < 2 ^ 52" using square_less_2_52 [of r] r by simp
    have sq: "2 ^ 52 \<le> k * k" if "2 ^ 26 \<le> \<bar>k\<bar>" for k :: int
    proof -
      have "(2 ^ 26) * (2 ^ 26) \<le> \<bar>k\<bar> * \<bar>k\<bar>" using that by (intro mult_mono) simp_all
      then show ?thesis by (simp add: abs_mult_self_eq)
    qed
    have "2 ^ 52 \<le> ?a * ?a + ?b * ?b"
      using far
    proof
      assume "2 ^ 26 \<le> \<bar>?a\<bar>"
      then have "2 ^ 52 \<le> ?a * ?a" by (rule sq)
      moreover have "0 \<le> ?b * ?b" by simp
      ultimately show ?thesis by linarith
    next
      assume "2 ^ 26 \<le> \<bar>?b\<bar>"
      then have "2 ^ 52 \<le> ?b * ?b" by (rule sq)
      moreover have "0 \<le> ?a * ?a" by simp
      ultimately show ?thesis by linarith
    qed
    then show ?thesis using rr by linarith
  qed
  ultimately show ?thesis by simp
qed

lemma Circle_draw_paints:
  assumes wf: "wf_display d" and c: "\<not> colorUnknown (circ_c circ)"
    and r: "0 \<le> circ_r circ" "circ_r circ \<le> px (center circ)" "circ_r circ \<le> py (center circ)"
    and b: "px (center circ) + circ_r circ < maxX d" "py (center circ) + circ_r circ < maxY d"
    and sz: "circ_r circ < 2 ^ 26" "maxX d < 2 ^ 63" "maxY d < 2 ^ 63"
  shows "\<exists>d'. Circle_draw Display_screen circ d = Inr (d', None) \<and>
              paints d {(x, y). 0 \<le> x \<and> x < px (center circ) + circ_r circ \<and>
                               0 \<le> y \<and> y < py (center circ) + circ_r circ \<and>
                               (px (center circ) - x) * (px (center circ) - x) +
                               (py (center circ) - y) * (py (center circ) - y)
                                 \<le> circ_r circ * circ_r circ}
                (circ_c circ) d'"
proof -
  let ?cx = "px (center circ)" and ?cy = "py (center circ)" and ?r = "circ_r circ"
  let ?in = "\<lambda>x y. (?cx - x) * (?cx - x) + (?cy - y) * (?cy - y) \<le> ?r * ?r"
  let ?body = "\<lambda>y. for_upto 0 (?cx + ?r)
                 (\<lambda>x s'. if insideCircle (center circ) \<lparr>px = x, py = y\<rparr> (float64_of_int ?r)
                          then (case Display_drawPixel s' x y (circ_c circ) of
                                  Inl p \<Rightarrow> Inl p
                                | Inr (s'', _) \<Rightarrow> Inr (s'', None))
                          else Inr (s', None))"
  have w: "wrap64 (?cx - ?r) = ?cx - ?r" "wrap64 (?cy - ?r) = ?cy - ?r"
    "wrap64 (?cx + ?r) = ?cx + ?r" "wrap64 (?cy + ?r) = ?cy + ?r"
    using r b sz by (simp_all add: wrap64_id)
  have inside: "insideCircle (center circ) \<lparr>px = x, py = y\<rparr> (float64_of_int ?r) \<longleftrightarrow> ?in x y"
    if "0 \<le> x" "x < ?cx + ?r" "0 \<le> y" "y < ?cy + ?r" for x y
  proof -
    have "\<bar>?cx - x\<bar> < 2 ^ 63" "\<bar>?cy - y\<bar> < 2 ^ 63" using that r b sz by simp_all
    then show ?thesis
      using insideCircle_iff [of "center circ" "\<lparr>px = x, py = y\<rparr>" ?r] r sz by simp
  qed
  have row: "\<exists>s''. ?body y s' = Inr (s'', None) \<and>
                paints s' {(x, y'). y' = y \<and> 0 \<le> x \<and> x < ?cx + ?r \<and> ?in x y} (circ_c circ) s''"
    if y: "0 \<le> y" "y < ?cy + ?r" and s': "wf_display s'" "maxX s' = maxX d" "maxY s' = maxY d"
    for y s'
  proof -
    have "\<exists>s''. ?body y s' = Inr (s'', None) \<and>
                paints s' (\<Union>x\<in>{0..<?cx + ?r}. if ?in x y then {(x, y)} else {}) (circ_c circ) s''"
    proof (rule for_upto_paints [where mx = "maxX d" and my = "maxY d"])
      fix i s2
      assume i: "0 \<le> i" "i < ?cx + ?r" and s2: "wf_display s2" "maxX s2 = maxX d" "maxY s2 = maxY d"
      show "\<exists>s''. (if insideCircle (center circ) \<lparr>px = i, py = y\<rparr> (float64_of_int ?r)
                   then (case Display_drawPixel s2 i y (circ_c circ) of
                           Inl p \<Rightarrow> Inl p
                         | Inr (s'', _) \<Rightarrow> Inr (s'', None))
                   else Inr (s2, None)) = Inr (s'', None) \<and>
                  paints s2 (if ?in i y then {(i, y)} else {}) (circ_c circ) s''"
      proof (cases "?in i y")
        case True
        obtain s3 where "Display_drawPixel s2 i y (circ_c circ) = Inr (s3, None)"
          "paints s2 {(i, y)} (circ_c circ) s3"
          using drawPixel_paints [OF s2(1), of i y "circ_c circ"] i y s2 b c by auto
        then show ?thesis using True inside [OF i y] by simp
      next
        case False
        then show ?thesis using inside [OF i y] s2 by (simp add: paints_refl)
      qed
    qed (use s' in simp_all)
    moreover have "(\<Union>x\<in>{0..<?cx + ?r}. if ?in x y then {(x, y)} else {})
        = {(x, y'). y' = y \<and> 0 \<le> x \<and> x < ?cx + ?r \<and> ?in x y}"
      by (auto split: if_splits)
    ultimately show ?thesis by simp
  qed
  have "\<exists>d'. for_upto 0 (?cy + ?r) ?body d = Inr (d', None) \<and>
           paints d (\<Union>y\<in>{0..<?cy + ?r}. {(x, y'). y' = y \<and> 0 \<le> x \<and> x < ?cx + ?r \<and> ?in x y})
             (circ_c circ) d'"
    by (rule for_upto_paints [where mx = "maxX d" and my = "maxY d"]) (use row wf in simp_all)
  moreover have "(\<Union>y\<in>{0..<?cy + ?r}. {(x, y'). y' = y \<and> 0 \<le> x \<and> x < ?cx + ?r \<and> ?in x y})
      = {(x, y). 0 \<le> x \<and> x < ?cx + ?r \<and> 0 \<le> y \<and> y < ?cy + ?r \<and> ?in x y}"
    by auto
  ultimately show ?thesis
    using r b c by (simp add: Circle_draw_def w Display_getMaxXY_def Let_def cong: if_cong)
qed

lemma wf_display_eqI:
  fixes d d' :: Display
  assumes wf: "wf_display d" "wf_display d'" and dims: "maxX d' = maxX d" "maxY d' = maxY d"
    and cells: "\<And>x y. 0 \<le> x \<Longrightarrow> x < maxX d \<Longrightarrow> 0 \<le> y \<Longrightarrow> y < maxY d \<Longrightarrow> cell d' x y = cell d x y"
  shows "d' = d"
proof -
  have len: "length (matrix d') = length (matrix d)"
    using wf dims by (simp add: wf_display_def)
  have "matrix d' = matrix d"
  proof (rule nth_equalityI [OF len])
    fix i assume i: "i < length (matrix d')"
    then have ix: "0 \<le> int i" "int i < maxX d" using wf dims by (simp_all add: wf_display_def)
    have l1: "int (length (matrix d ! i)) = maxY d" using wf_row_length [OF wf(1) ix] by simp
    have l2: "int (length (matrix d' ! i)) = maxY d" using wf_row_length [OF wf(2), of "int i"] ix dims by simp
    show "matrix d' ! i = matrix d ! i"
    proof (rule nth_equalityI)
      show "length (matrix d' ! i) = length (matrix d ! i)" using l1 l2 by linarith
    next
      fix j assume "j < length (matrix d' ! i)"
      then have "0 \<le> int j" "int j < maxY d" using l2 by simp_all
      then show "matrix d' ! i ! j = matrix d ! i ! j"
        using cells [of "int i" "int j"] ix by (simp add: cell_def)
    qed
  qed
  then show ?thesis using dims by simp
qed

lemma paints_unchanged:
  fixes d d' :: Display
  assumes "paints d A c d'" "wf_display d"
    and "\<And>x y. (x, y) \<in> A \<Longrightarrow> 0 \<le> x \<Longrightarrow> x < maxX d \<Longrightarrow> 0 \<le> y \<Longrightarrow> y < maxY d \<Longrightarrow> cell d x y = c"
  shows "d' = d"
  using assms by (intro wf_display_eqI) (auto simp: paints_def)

lemma sqrt_le_int_iff:
  assumes "0 \<le> r" "0 \<le> n"
  shows "sqrt (real_of_int n) \<le> real_of_int r \<longleftrightarrow> n \<le> r * r"
proof
  assume "n \<le> r * r"
  then have "real_of_int n \<le> real_of_int (r * r)" by (simp only: of_int_le_iff)
  then have "real_of_int n \<le> (real_of_int r)\<^sup>2" by (simp add: power2_eq_square)
  then show "sqrt (real_of_int n) \<le> real_of_int r" using assms by (intro real_le_lsqrt) simp_all
next
  assume a: "sqrt (real_of_int n) \<le> real_of_int r"
  have "0 \<le> sqrt (real_of_int n)" using assms by simp
  then have "(sqrt (real_of_int n))\<^sup>2 \<le> (real_of_int r)\<^sup>2" using a by (intro power_mono) simp_all
  moreover have "(sqrt (real_of_int n))\<^sup>2 = real_of_int n" using assms by simp
  ultimately have "real_of_int n \<le> real_of_int (r * r)" by (simp add: power2_eq_square)
  then show "n \<le> r * r" by (simp only: of_int_le_iff)
qed

lemma red_corner_drawn: "Display_drawPixel (fresh 12 12) 0 0 ''red'' = Inr (red_corner, None)"
  using drawPixel_ok [of "fresh 12 12" 0 0 "''red''"]
  by (simp add: wf_fresh colorUnknown_iff red_corner_def)

lemma red_corner_wf: "wf_display red_corner" "maxX red_corner = 12" "maxY red_corner = 12"
  using wf_update [of "fresh 12 12" 0 0 "''red''"]
  by (simp_all add: wf_fresh red_corner_def)

lemma red_corner_cell: "Display_getPixel red_corner 0 0 = Inr (''red'', None)"
proof -
  have "cell red_corner 0 0 = ''red''"
    using cell_update [of "fresh 12 12" 0 0 0 0 "''red''"]
    by (simp add: wf_fresh red_corner_def)
  then show ?thesis
    using getPixel_cell [OF red_corner_wf(1), of 0 0]
    by (simp add: red_corner_wf colorUnknown_iff)
qed

section \<open>Properties of the triangle and invariants of the loops\<close>

lemma length_interpolate_loop [simp]: "length (interpolate_loop n d a) = n"
  by (induction n arbitrary: d) simp_all

lemma interpolate_ok:
  assumes "l0 \<le> l1"
  shows "\<exists>xs. interpolate l0 d0 l1 d1 = Inr xs \<and> int (length xs) = l1 - l0 + 1"
  using assms by (simp add: interpolate_def Let_def)

lemma sort_vertices_sorted:
  assumes "sort_vertices t = ((x0, y0), (x1, y1), (x2, y2))"
  shows "y0 \<le> y1 \<and> y1 \<le> y2"
  using assms by (auto simp: sort_vertices_def Let_def split: if_splits)

lemma for_upto_inv:
  assumes step: "\<And>i s. lo \<le> i \<Longrightarrow> i < hi \<Longrightarrow> I s \<Longrightarrow> \<exists>s' e. body i s = Inr (s', e) \<and> I s'"
    and "I s"
  shows "\<exists>s' e. for_upto lo hi body s = Inr (s', e) \<and> I s'"
  using assms
proof (induction lo hi body s rule: for_upto.induct)
  case (1 i hi body s)
  show ?case
  proof (cases "i < hi")
    case False
    then show ?thesis using "1.prems"(2) by (simp add: for_upto_empty)
  next
    case True
    obtain s1 e1 where s1: "body i s = Inr (s1, e1)" "I s1"
      using "1.prems"(1) [of i s] True "1.prems"(2) by auto
    show ?thesis
    proof (cases e1)
      case (Some e)
      then have "for_upto i hi body s = Inr (s1, Some e)"
        using True s1(1) by (subst for_upto.simps) simp
      then show ?thesis using s1(2) by blast
    next
      case None
      have "\<exists>s' e. for_upto (i + 1) hi body s1 = Inr (s', e) \<and> I s'"
        using "1.IH" [OF True s1(1) [unfolded None] refl refl _ s1(2)] "1.prems"(1) by simp
      moreover have "for_upto i hi body s = for_upto (i + 1) hi body s1"
        using True s1(1) None by (subst for_upto.simps) simp
      ultimately show ?thesis by simp
    qed
  qed
qed

lemma valid_cells_update:
  assumes "valid_cells d" "\<not> colorUnknown c"
  shows "valid_cells (d\<lparr>matrix := (matrix d)[nat x := (matrix d ! nat x)[nat y := c]]\<rparr>)"
proof (cases "nat x < length (matrix d)")
  case False
  then show ?thesis using assms(1) by (simp add: valid_cells_def list_update_beyond)
next
  case True
  have old: "list_all (\<lambda>k. \<not> colorUnknown k) (matrix d ! nat x)"
    using assms(1) True by (simp add: valid_cells_def list_all_length)
  have "set ((matrix d ! nat x)[nat y := c]) \<subseteq> insert c (set (matrix d ! nat x))"
    by (rule set_update_subset_insert)
  then have new: "list_all (\<lambda>k. \<not> colorUnknown k) ((matrix d ! nat x)[nat y := c])"
    using old assms(2) by (auto simp: list_all_iff)
  show ?thesis
    using assms(1) True new by (auto simp: valid_cells_def list_all_length nth_list_update)
qed

lemma drawPixel_inv:
  assumes "inv w h d"
  shows "\<exists>d' e. Display_drawPixel d x y c = Inr (d', e) \<and> inv w h d'"
proof (cases "x < 0 \<or> maxX d \<le> x \<or> y < 0 \<or> maxY d \<le> y \<or> colorUnknown c")
  case True
  then show ?thesis using assms by (auto simp: Display_drawPixel_def)
next
  case False
  then have "Display_drawPixel d x y c =
               Inr (d\<lparr>matrix := (matrix d)[nat x := (matrix d ! nat x)[nat y := c]]\<rparr>, None)"
    using assms by (intro drawPixel_ok) (simp_all add: inv_def)
  then show ?thesis
    using assms False by (simp add: inv_def wf_update valid_cells_update)
qed

lemma Triangle_draw_cases:
  fixes scn :: "'s screen"
  shows "\<exists>left right y0 y2.
           y0 \<le> y2 \<and> int (length left) = y2 - y0 + 1 \<and> int (length right) = y2 - y0 + 1 \<and>
           Triangle_draw scn t s =
             (if outOfBounds scn (pt0 t) s \<or> outOfBounds scn (pt1 t) s \<or> outOfBounds scn (pt2 t) s
              then Inr (s, Some outOfBoundsErr)
              else if colorUnknown (tri_c t) then Inr (s, Some colorUnknownErr)
              else fill_spans scn left right y0 y2 (tri_c t) s)"
proof -
  obtain x0 y0 x1 y1 x2 y2 where sv: "sort_vertices t = ((x0, y0), (x1, y1), (x2, y2))"
    by (metis prod.exhaust)
  have ord: "y0 \<le> y1" "y1 \<le> y2" using sort_vertices_sorted [OF sv] by simp_all
  obtain x01 where x01: "interpolate y0 x0 y1 x1 = Inr x01" "int (length x01) = y1 - y0 + 1"
    using interpolate_ok [OF ord(1)] by blast
  obtain x12 where x12: "interpolate y1 x1 y2 x2 = Inr x12" "int (length x12) = y2 - y1 + 1"
    using interpolate_ok [OF ord(2)] by blast
  obtain x02 where x02: "interpolate y0 x0 y2 x2 = Inr x02" "int (length x02) = y2 - y0 + 1"
    using interpolate_ok [of y0 y2] ord by auto
  have sl: "slice_to x01 (int (length x01) - 1) = Inr (take (nat (int (length x01) - 1)) x01)"
    using x01(2) ord by (simp add: slice_to_def)
  let ?x012 = "take (nat (int (length x01) - 1)) x01 @ x12"
  have len: "int (length ?x012) = y2 - y0 + 1" using x01(2) x12(2) ord by simp
  let ?mid = "int (length ?x012) div 2"
  have mid: "0 \<le> ?mid" "?mid < int (length ?x012)" "?mid < int (length x02)"
    using len x02(2) ord by simp_all
  have i1: "index x02 ?mid = Inr (x02 ! nat ?mid)" using mid by (intro index_in_range) simp_all
  have i2: "index ?x012 ?mid = Inr (?x012 ! nat ?mid)" using mid by (intro index_in_range) simp_all
  have eq: "Triangle_draw scn t s =
          (if outOfBounds scn (pt0 t) s \<or> outOfBounds scn (pt1 t) s \<or> outOfBounds scn (pt2 t) s
           then Inr (s, Some outOfBoundsErr)
           else if colorUnknown (tri_c t) then Inr (s, Some colorUnknownErr)
           else if x02 ! nat ?mid < ?x012 ! nat ?mid
                then fill_spans scn x02 ?x012 y0 y2 (tri_c t) s
                else fill_spans scn ?x012 x02 y0 y2 (tri_c t) s)"
    by (simp only: Triangle_draw_def sv x01(1) x12(1) x02(1) sl i1 i2 Let_def prod.case sum.case
          if_distrib [of "\<lambda>p. case p of (left, right) \<Rightarrow> fill_spans scn left right y0 y2 (tri_c t) s"])
  have y: "y0 \<le> y2" using ord by simp
  show ?thesis
  proof (cases "x02 ! nat ?mid < ?x012 ! nat ?mid")
    case True
    with eq have "Triangle_draw scn t s =
          (if outOfBounds scn (pt0 t) s \<or> outOfBounds scn (pt1 t) s \<or> outOfBounds scn (pt2 t) s
           then Inr (s, Some outOfBoundsErr)
           else if colorUnknown (tri_c t) then Inr (s, Some colorUnknownErr)
           else fill_spans scn x02 ?x012 y0 y2 (tri_c t) s)" by simp
    with y x02(2) len show ?thesis by blast
  next
    case False
    with eq have "Triangle_draw scn t s =
          (if outOfBounds scn (pt0 t) s \<or> outOfBounds scn (pt1 t) s \<or> outOfBounds scn (pt2 t) s
           then Inr (s, Some outOfBoundsErr)
           else if colorUnknown (tri_c t) then Inr (s, Some colorUnknownErr)
           else fill_spans scn ?x012 x02 y0 y2 (tri_c t) s)" by simp
    with y x02(2) len show ?thesis by blast
  qed
qed

lemma interpolate_loop_numeral:
  "interpolate_loop (numeral n) d a = int_of_float64 d # interpolate_loop (pred_numeral n) (fadd d a) a"
  by (simp add: numeral_eq_Suc)

lemma to_float64_numeral [simp]:
  "to_float64 0 = Finite 0"
  "to_float64 1 = Finite 1"
  "to_float64 (- 1) = Finite (- 1)"
  "numeral n < (2::real) ^ 53 \<Longrightarrow> to_float64 (numeral n) = Finite (numeral n)"
  "numeral n < (2::real) ^ 53 \<Longrightarrow> to_float64 (- numeral n) = Finite (- numeral n)"
  by (simp_all add: to_float64_int)

lemma interpolate_examples:
  "interpolate 0 0 0 4 = Inr [0]"
  "interpolate 0 4 4 0 = Inr [4, 3, 2, 1, 0]"
  "interpolate 0 0 4 0 = Inr [0, 0, 0, 0, 0]"
  by (simp_all add: interpolate_def float64_of_int_def interpolate_loop_numeral int_of_float64_def)

lemma row_paints:
  assumes "wf_display s" "0 \<le> y" "y < maxY s" "0 \<le> lo" "hi \<le> maxX s" "\<not> colorUnknown c"
  shows "\<exists>s'. for_upto lo hi (\<lambda>xx s''. Display_drawPixel s'' xx y c) s = Inr (s', None) \<and>
              paints s {(x, y'). y' = y \<and> lo \<le> x \<and> x < hi} c s'"
proof -
  have "\<exists>s'. for_upto lo hi (\<lambda>xx s''. Display_drawPixel s'' xx y c) s = Inr (s', None) \<and>
              paints s (\<Union>x\<in>{lo..<hi}. {(x, y)}) c s'"
  proof (rule for_upto_paints [where mx = "maxX s" and my = "maxY s"])
    fix i s'
    assume "lo \<le> i" "i < hi" "wf_display s'" "maxX s' = maxX s" "maxY s' = maxY s"
    then show "\<exists>s''. Display_drawPixel s' i y c = Inr (s'', None) \<and> paints s' {(i, y)} c s''"
      using assms by (intro drawPixel_paints) simp_all
  qed (use assms in simp_all)
  moreover have "(\<Union>x\<in>{lo..<hi}. {(x, y)}) = {(x, y'). y' = y \<and> lo \<le> x \<and> x < hi}"
    by auto
  ultimately show ?thesis by simp
qed

lemma right_edge_nth: "0 \<le> i \<Longrightarrow> i < 5 \<Longrightarrow> [4, 3, 2, 1, 0 :: int] ! nat i = 4 - i"
proof -
  assume "0 \<le> i" "i < 5"
  then have "i = 0 \<or> i = 1 \<or> i = 2 \<or> i = 3 \<or> i = 4" by arith
  then show ?thesis by auto
qed

lemma left_edge_nth: "0 \<le> i \<Longrightarrow> i < 5 \<Longrightarrow> [0, 0, 0, 0, 0 :: int] ! nat i = 0"
proof -
  assume "0 \<le> i" "i < 5"
  then have "i = 0 \<or> i = 1 \<or> i = 2 \<or> i = 3 \<or> i = 4" by arith
  then show ?thesis by auto
qed

lemma fill_spans_preserves:
  fixes scn :: "'s screen"
  assumes step: "\<And>s x y. I s \<Longrightarrow> \<exists>s' e. drawPixel scn s x y c = Inr (s', e) \<and> I s'"
    and s: "I s"
    and len: "int (length left) = y2 - y0 + 1" "int (length right) = y2 - y0 + 1"
  shows "\<exists>s' e. fill_spans scn left right y0 y2 c s = Inr (s', e) \<and> I s'"
  unfolding fill_spans_def
proof (rule for_upto_inv [where I = I])
  fix i s1 assume i: "y0 \<le> i" "i < y2 + 1" and s1: "I s1"
  have l: "index left (i - y0) = Inr (left ! nat (i - y0))"
    using i len(1) by (intro index_in_range) simp_all
  have r: "index right (i - y0) = Inr (right ! nat (i - y0))"
    using i len(2) by (intro index_in_range) simp_all
  have "\<exists>s' e. for_upto (left ! nat (i - y0)) (right ! nat (i - y0) + 1)
                  (\<lambda>xx s''. drawPixel scn s'' xx i c) s1 = Inr (s', e) \<and> I s'"
    by (rule for_upto_inv [where I = I]) (use s1 step in auto)
  then show "\<exists>s' e. (case index left (i - y0) of
                       Inl p \<Rightarrow> Inl p
                     | Inr l \<Rightarrow>
                         (case index right (i - y0) of
                            Inl p \<Rightarrow> Inl p
                          | Inr r \<Rightarrow> for_upto l (r + 1) (\<lambda>xx s''. drawPixel scn s'' xx i c) s1))
                    = Inr (s', e) \<and> I s'"
    by (simp add: l r)
qed (rule s)

lemma Triangle_draw_preserves:
  fixes scn :: "'s screen"
  assumes step: "\<And>s x y. I s \<Longrightarrow> \<exists>s' e. drawPixel scn s x y (tri_c t) = Inr (s', e) \<and> I s'"
    and s: "I s"
  shows "\<exists>s' e. Triangle_draw scn t s = Inr (s', e) \<and> I s'"
proof -
  obtain left right y0 y2 where l: "int (length left) = y2 - y0 + 1" "int (length right) = y2 - y0 + 1"
    and eq: "Triangle_draw scn t s =
             (if outOfBounds scn (pt0 t) s \<or> outOfBounds scn (pt1 t) s \<or> outOfBounds scn (pt2 t) s
              then Inr (s, Some outOfBoundsErr)
              else if colorUnknown (tri_c t) then Inr (s, Some colorUnknownErr)
              else fill_spans scn left right y0 y2 (tri_c t) s)"
    using Triangle_draw_cases [where scn = scn and t = t and s = s] by blast
  show ?thesis
    unfolding eq using s fill_spans_preserves [of I scn "tri_c t", OF step s l] by auto
qed

lemma Rectangle_draw_preserves:
  fixes scn :: "'s screen"
  assumes step: "\<And>s x y. I s \<Longrightarrow> \<exists>s' e. drawPixel scn s x y (rect_c r) = Inr (s', e) \<and> I s'"
    and s: "I s"
  shows "\<exists>s' e. Rectangle_draw scn r s = Inr (s', e) \<and> I s'"
proof -
  have "\<exists>s' e. for_upto (px (ll r)) (px (ur r))
            (\<lambda>x. for_upto (py (ll r)) (py (ur r)) (\<lambda>y s'. drawPixel scn s' x y (rect_c r))) s
          = Inr (s', e) \<and> I s'"
  proof (rule for_upto_inv [where I = I])
    fix i s1 assume "I s1"
    then show "\<exists>s' e. for_upto (py (ll r)) (py (ur r)) (\<lambda>y s'. drawPixel scn s' i y (rect_c r)) s1
                 = Inr (s', e) \<and> I s'"
      by (intro for_upto_inv [where I = I]) (use step in auto)
  qed (rule s)
  then show ?thesis
    using s by (auto simp: Rectangle_draw_def split: prod.splits)
qed

lemma Circle_draw_preserves:
  fixes scn :: "'s screen"
  assumes step: "\<And>s x y. I s \<Longrightarrow> \<exists>s' e. drawPixel scn s x y (circ_c circ) = Inr (s', e) \<and> I s'"
    and s: "I s"
  shows "\<exists>s'. (Circle_draw scn circ s = Inr (s', None) \<or>
               Circle_draw scn circ s = Inr (s', Some outOfBoundsErr) \<and> s' = s \<or>
               Circle_draw scn circ s = Inr (s', Some colorUnknownErr) \<and> s' = s) \<and> I s'"
proof -
  let ?body = "\<lambda>y. for_upto 0 (wrap64 (px (center circ) + circ_r circ))
                 (\<lambda>x s'. if insideCircle (center circ) \<lparr>px = x, py = y\<rparr> (float64_of_int (circ_r circ))
                          then (case drawPixel scn s' x y (circ_c circ) of
                                  Inl p \<Rightarrow> Inl p
                                | Inr (s'', _) \<Rightarrow> Inr (s'', None))
                          else Inr (s', None))"
  let ?J = "\<lambda>p. case p of Inl _ \<Rightarrow> False | Inr (s', e) \<Rightarrow> e = None \<and> I s'"
  have inner: "\<exists>s'. (if insideCircle (center circ) \<lparr>px = x, py = y\<rparr> (float64_of_int (circ_r circ))
                     then (case drawPixel scn s1 x y (circ_c circ) of
                             Inl p \<Rightarrow> Inl p
                           | Inr (s'', _) \<Rightarrow> Inr (s'', None))
                     else Inr (s1, None)) = Inr (s', None) \<and> I s'" if "I s1" for x y s1
    using step [OF that, of x y] that by auto
  have none: "\<exists>s'. for_upto lo hi body s1 = Inr (s', None) \<and> I s'"
    if "\<And>i s2. I s2 \<Longrightarrow> \<exists>s'. body i s2 = Inr (s', None) \<and> I s'" "I s1"
    for lo hi and body :: "int \<Rightarrow> 's \<Rightarrow> panic + ('s \<times> error option)" and s1
    using that
  proof (induction lo hi body s1 rule: for_upto.induct)
    case (1 i hi body s)
    show ?case
    proof (cases "i < hi")
      case False
      then show ?thesis using "1.prems"(2) by (simp add: for_upto_empty)
    next
      case True
      obtain s2 where s2: "body i s = Inr (s2, None)" "I s2" using "1.prems" by blast
      have "\<exists>s'. for_upto (i + 1) hi body s2 = Inr (s', None) \<and> I s'"
        using "1.IH" [OF True s2(1) refl refl _ s2(2)] "1.prems"(1) by simp
      moreover have "for_upto i hi body s = for_upto (i + 1) hi body s2"
        using True s2(1) by (subst for_upto.simps) simp
      ultimately show ?thesis by simp
    qed
  qed
  have row: "\<exists>s'. ?body y s1 = Inr (s', None) \<and> I s'" if "I s1" for y s1
    by (rule none [OF _ that]) (rule inner)
  have "\<exists>s'. for_upto 0 (wrap64 (py (center circ) + circ_r circ)) ?body s = Inr (s', None) \<and> I s'"
    by (rule none [OF _ s]) (rule row)
  then show ?thesis
    using s by (auto simp: Circle_draw_def Let_def split: prod.splits)
qed


lemma interpolate_flat:
  assumes "\<bar>d0\<bar> < 2 ^ 53"
  shows "interpolate l0 d0 l0 d1 = Inr [d0]"
proof -
  have "float64_of_int d0 = Finite (of_int d0)" using assms by (rule float64_of_int_exact)
  moreover have "int_of_float64 (Finite (of_int d0)) = d0"
    using assms by (intro int_of_float64_of_int) simp_all
  ultimately show ?thesis by (simp add: interpolate_def Let_def)
qed



lemma corner_orders:
  assumes "set [pt0 t, pt1 t, pt2 t] = {\<lparr>px = 0, py = 0\<rparr>, \<lparr>px = 4, py = 0\<rparr>, \<lparr>px = 0, py = 4\<rparr>}"
  shows "sort_vertices t = ((0, 0), (4, 0), (0, 4)) \<or> sort_vertices t = ((4, 0), (0, 0), (0, 4))"
    and "px (pt0 t) \<in> {0, 4} \<and> py (pt0 t) \<in> {0, 4}"
    and "px (pt1 t) \<in> {0, 4} \<and> py (pt1 t) \<in> {0, 4}"
    and "px (pt2 t) \<in> {0, 4} \<and> py (pt2 t) \<in> {0, 4}"
proof -
  let ?A = "\<lparr>px = 0, py = 0\<rparr>" and ?B = "\<lparr>px = 4, py = 0\<rparr>" and ?C = "\<lparr>px = 0, py = 4\<rparr>"
  have "pt0 t \<in> set [pt0 t, pt1 t, pt2 t]" "pt1 t \<in> set [pt0 t, pt1 t, pt2 t]"
       "pt2 t \<in> set [pt0 t, pt1 t, pt2 t]"
    by simp_all
  then have "pt0 t \<in> {?A, ?B, ?C}" "pt1 t \<in> {?A, ?B, ?C}" "pt2 t \<in> {?A, ?B, ?C}"
    unfolding assms by this+
  then have in0: "pt0 t = ?A \<or> pt0 t = ?B \<or> pt0 t = ?C"
   and in1: "pt1 t = ?A \<or> pt1 t = ?B \<or> pt1 t = ?C"
   and in2: "pt2 t = ?A \<or> pt2 t = ?B \<or> pt2 t = ?C"
    by blast+
  have "?A \<in> {?A, ?B, ?C}" "?B \<in> {?A, ?B, ?C}" "?C \<in> {?A, ?B, ?C}"
    by blast+
  then have "?A \<in> set [pt0 t, pt1 t, pt2 t]" "?B \<in> set [pt0 t, pt1 t, pt2 t]"
       "?C \<in> set [pt0 t, pt1 t, pt2 t]"
    by (simp_all only: assms)
  then have a: "?A = pt0 t \<or> ?A = pt1 t \<or> ?A = pt2 t"
   and b: "?B = pt0 t \<or> ?B = pt1 t \<or> ?B = pt2 t"
   and c: "?C = pt0 t \<or> ?C = pt1 t \<or> ?C = pt2 t"
    by auto
  have ne: "?A \<noteq> ?B" "?A \<noteq> ?C" "?B \<noteq> ?C" by simp_all
  consider "pt0 t = ?A \<and> pt1 t = ?B \<and> pt2 t = ?C"
    | "pt0 t = ?A \<and> pt1 t = ?C \<and> pt2 t = ?B"
    | "pt0 t = ?B \<and> pt1 t = ?A \<and> pt2 t = ?C"
    | "pt0 t = ?B \<and> pt1 t = ?C \<and> pt2 t = ?A"
    | "pt0 t = ?C \<and> pt1 t = ?A \<and> pt2 t = ?B"
    | "pt0 t = ?C \<and> pt1 t = ?B \<and> pt2 t = ?A"
    using in0 in1 in2 a b c ne by metis
  then show "sort_vertices t = ((0, 0), (4, 0), (0, 4)) \<or> sort_vertices t = ((4, 0), (0, 0), (0, 4))"
    by cases (simp_all add: sort_vertices_def)
  show "px (pt0 t) \<in> {0, 4} \<and> py (pt0 t) \<in> {0, 4}" using in0 by auto
  show "px (pt1 t) \<in> {0, 4} \<and> py (pt1 t) \<in> {0, 4}" using in1 by auto
  show "px (pt2 t) \<in> {0, 4} \<and> py (pt2 t) \<in> {0, 4}" using in2 by auto
qed

lemma corner_draw_sorted:
  fixes scn :: "'s screen"
  assumes sv: "sort_vertices t = ((0, 0), (4, 0), (0, 4)) \<or> sort_vertices t = ((4, 0), (0, 0), (0, 4))"
    and ib: "\<not> outOfBounds scn (pt0 t) s" "\<not> outOfBounds scn (pt1 t) s" "\<not> outOfBounds scn (pt2 t) s"
    and c: "\<not> colorUnknown (tri_c t)"
  shows "Triangle_draw scn t s = fill_spans scn [0, 0, 0, 0, 0] [4, 3, 2, 1, 0] 0 4 (tri_c t) s"
proof -
  have flat: "interpolate 0 4 0 0 = Inr [4]"
    using interpolate_flat [of 4 0 0] by simp
  have s1: "slice_to [0 :: int] (int (length [0 :: int]) - 1) = Inr []"
    and s2: "slice_to [4 :: int] (int (length [4 :: int]) - 1) = Inr []"
    by (simp_all add: slice_to_def)
  have i1: "index [0, 0, 0, 0, 0 :: int] (int (length ([] @ [4, 3, 2, 1, 0 :: int])) div 2) = Inr 0"
    and i2: "index ([] @ [4, 3, 2, 1, 0 :: int]) (int (length ([] @ [4, 3, 2, 1, 0 :: int])) div 2) = Inr 2"
    and i3: "index [4, 3, 2, 1, 0 :: int] (int (length ([] @ [0, 0, 0, 0, 0 :: int])) div 2) = Inr 2"
    and i4: "index ([] @ [0, 0, 0, 0, 0 :: int]) (int (length ([] @ [0, 0, 0, 0, 0 :: int])) div 2) = Inr 0"
    by (simp_all add: index_def)
  from sv show ?thesis
  proof
    assume a: "sort_vertices t = ((0, 0), (4, 0), (0, 4))"
    show ?thesis
      unfolding Triangle_draw_def a
      by (simp only: ib c if_False simp_thms prod.case interpolate_examples sum.case s1 i1 i2 Let_def)
         simp
  next
    assume a: "sort_vertices t = ((4, 0), (0, 0), (0, 4))"
    show ?thesis
      unfolding Triangle_draw_def a
      by (simp only: ib c if_False simp_thms prod.case interpolate_examples flat sum.case s2 i3 i4 Let_def)
         simp
  qed
qed

lemma corner_triangle_draw:
  assumes v: "set [pt0 t, pt1 t, pt2 t] = {\<lparr>px = 0, py = 0\<rparr>, \<lparr>px = 4, py = 0\<rparr>, \<lparr>px = 0, py = 4\<rparr>}"
    and sz: "4 < maxX d" "4 < maxY d" and c: "\<not> colorUnknown (tri_c t)"
  shows "Triangle_draw Display_screen t d
         = fill_spans Display_screen [0, 0, 0, 0, 0] [4, 3, 2, 1, 0] 0 4 (tri_c t) d"
proof -
  have "\<not> outOfBounds Display_screen p d"
    if "px p \<in> {0, 4} \<and> py p \<in> {0, 4}" for p
    using that sz by (auto simp: outOfBounds_def Display_getMaxXY_def)
  then have "\<not> outOfBounds Display_screen (pt0 t) d" "\<not> outOfBounds Display_screen (pt1 t) d"
            "\<not> outOfBounds Display_screen (pt2 t) d"
    using corner_orders(2-4) [OF v] by blast+
  with corner_orders(1) [OF v] show ?thesis
    using c by (rule corner_draw_sorted)
qed

lemma corner_spans_paint:
  assumes wf: "wf_display d" and sz: "4 < maxX d" "4 < maxY d" and c: "\<not> colorUnknown c"
  shows "\<exists>d'. fill_spans Display_screen [0, 0, 0, 0, 0] [4, 3, 2, 1, 0] 0 4 c d = Inr (d', None) \<and>
              paints d {(x, y). 0 \<le> x \<and> 0 \<le> y \<and> x + y \<le> 4} c d'"
proof -
  let ?body = "\<lambda>yy s'. case index [0, 0, 0, 0, 0] (yy - 0) of
                   Inl p \<Rightarrow> Inl p
                 | Inr l \<Rightarrow>
                     (case index [4, 3, 2, 1, 0] (yy - 0) of
                        Inl p \<Rightarrow> Inl p
                      | Inr r \<Rightarrow> for_upto l (r + 1) (\<lambda>xx s''. drawPixel Display_screen s'' xx yy c) s')"
  have "\<exists>d'. for_upto 0 (4 + 1) ?body d = Inr (d', None) \<and>
           paints d (\<Union>i\<in>{0..<(4::int) + 1}. {(x, y). y = i \<and> 0 \<le> x \<and> x < 4 - i + 1}) c d'"
  proof (rule for_upto_paints [where mx = "maxX d" and my = "maxY d"])
    fix i :: int and s'
    assume i: "0 \<le> i" "i < 4 + 1" and s': "wf_display s'" "maxX s' = maxX d" "maxY s' = maxY d"
    have l: "index [0, 0, 0, 0, 0 :: int] i = Inr 0"
      using i left_edge_nth [of i] by (simp add: index_def)
    have r: "index [4, 3, 2, 1, 0 :: int] i = Inr (4 - i)"
      using i right_edge_nth [of i] by (simp add: index_def)
    have "\<exists>s''. for_upto 0 (4 - i + 1) (\<lambda>xx s''. Display_drawPixel s'' xx i c) s' = Inr (s'', None) \<and>
                paints s' {(x, y). y = i \<and> 0 \<le> x \<and> x < 4 - i + 1} c s''"
      using i s' sz c by (intro row_paints) simp_all
    then show "\<exists>s''. ?body i s' = Inr (s'', None) \<and>
                 paints s' {(x, y). y = i \<and> 0 \<le> x \<and> x < 4 - i + 1} c s''"
      by (simp add: l r)
  qed (use wf in simp_all)
  moreover have "(\<Union>i\<in>{0..<(4::int) + 1}. {(x, y). y = i \<and> 0 \<le> x \<and> x < 4 - i + 1})
      = {(x, y). 0 \<le> x \<and> 0 \<le> y \<and> x + y \<le> (4::int)}"
    by auto
  ultimately show ?thesis
    unfolding fill_spans_def by simp
qed

section \<open>Properties of sequences of calls\<close>

lemma inv_fresh: "0 \<le> w \<Longrightarrow> 0 \<le> h \<Longrightarrow> inv w h (fresh w h)"
  by (simp add: inv_def wf_fresh) (simp add: valid_cells_def fresh_def list_all_length colorUnknown_iff)

lemma Display_step_inv:
  "inv w h s \<Longrightarrow> \<exists>s' e. drawPixel Display_screen s x y c = Inr (s', e) \<and> inv w h s'"
  using drawPixel_inv [of w h s x y c] by simp


lemma clearScreen_inv: "inv w h d \<Longrightarrow> inv w h (Display_clearScreen d)"
  by (simp add: inv_def wf_display_def valid_cells_def Display_clearScreen_def list_all_iff
        colorUnknown_iff)

lemma perform_inv:
  assumes "inv w h d"
  shows "\<exists>d'. perform d k = Inr d' \<and> inv w h d'"
proof (cases k)
  case (CallDrawPixel x y c)
  then show ?thesis using drawPixel_inv [OF assms, of x y c] by auto
next
  case CallClearScreen
  then show ?thesis using clearScreen_inv [OF assms] by simp
next
  case (CallRectangle r)
  have "\<exists>d' e. Rectangle_draw Display_screen r d = Inr (d', e) \<and> inv w h d'"
    by (rule Rectangle_draw_preserves [where I = "inv w h"]) (rule Display_step_inv, assumption, rule assms)
  then show ?thesis using CallRectangle by auto
next
  case (CallTriangle t)
  have "\<exists>d' e. Triangle_draw Display_screen t d = Inr (d', e) \<and> inv w h d'"
    by (rule Triangle_draw_preserves [where I = "inv w h"]) (rule Display_step_inv, assumption, rule assms)
  then show ?thesis using CallTriangle by auto
next
  case (CallCircle circ)
  have "\<exists>d'. (Circle_draw Display_screen circ d = Inr (d', None) \<or>
               Circle_draw Display_screen circ d = Inr (d', Some outOfBoundsErr) \<and> d' = d \<or>
               Circle_draw Display_screen circ d = Inr (d', Some colorUnknownErr) \<and> d' = d) \<and> inv w h d'"
    by (rule Circle_draw_preserves [where I = "inv w h"]) (rule Display_step_inv, assumption, rule assms)
  then show ?thesis using CallCircle by auto
qed

lemma perform_all_inv:
  "inv w h d \<Longrightarrow> \<exists>d'. perform_all d ks = Inr d' \<and> inv w h d'"
proof (induction ks arbitrary: d)
  case Nil
  then show ?case by simp
next
  case (Cons k ks)
  obtain d1 where d1: "perform d k = Inr d1" "inv w h d1"
    using perform_inv [OF Cons.prems] by blast
  show ?case using Cons.IH [OF d1(2)] d1(1) by simp
qed

lemma getPixel_inv:
  assumes "inv w h d" "0 \<le> x" "x < w" "0 \<le> y" "y < h"
  shows "Display_getPixel d x y = Inr (cell d x y, None) \<and> \<not> colorUnknown (cell d x y)"
proof -
  have wf: "wf_display d" and m: "maxX d = w" "maxY d = h" and v: "valid_cells d"
    using assms(1) by (simp_all add: inv_def)
  have lx: "nat x < length (matrix d)" using wf assms m by (intro wf_nat_less) simp_all
  have "int (length (matrix d ! nat x)) = maxY d" using wf assms m by (intro wf_row_length) simp_all
  then have ly: "nat y < length (matrix d ! nat x)" using assms m by simp
  have "\<not> colorUnknown (cell d x y)"
    using v lx ly by (simp add: valid_cells_def list_all_length cell_def)
  then show ?thesis
    using getPixel_cell [OF wf, of x y] assms m by simp
qed

section \<open>Properties of the snapshot\<close>

lemma for_upto_append:
  fixes body :: "int \<Rightarrow> string \<Rightarrow> panic + (string \<times> error option)"
  assumes "\<And>i out. lo \<le> i \<Longrightarrow> i < hi \<Longrightarrow> body i out = Inr (out @ g i, None)"
  shows "for_upto lo hi body out = Inr (out @ concat (map g [lo..hi - 1]), None)"
  using assms
proof (induction lo hi body out rule: for_upto.induct)
  case (1 i hi body out)
  show ?case
  proof (cases "i < hi")
    case False
    then show ?thesis by (simp add: for_upto_empty)
  next
    case True
    have b: "body i out = Inr (out @ g i, None)" using "1.prems" True by simp
    have "for_upto (i + 1) hi body (out @ g i) = Inr ((out @ g i) @ concat (map g [i + 1..hi - 1]), None)"
      using "1.IH" [OF True b refl refl] "1.prems" by simp
    moreover have "[i..hi - 1] = i # [i + 1..hi - 1]" using True by (simp add: upto_rec1)
    moreover have "for_upto i hi body out = for_upto (i + 1) hi body (out @ g i)"
      using True b by (subst for_upto.simps) simp
    ultimately show ?thesis by simp
  qed
qed

lemma write_row_line:
  assumes wf: "wf_display d" and r: "0 \<le> r" "r < maxX d"
  shows "write_row d r out = Inr (out @ ppm_line d r, None)"
proof -
  have rx: "index (matrix d) r = Inr (matrix d ! nat r)"
    using wf r by (intro index_in_range) (simp_all add: wf_display_def)
  have len: "int (length (matrix d ! nat r)) = maxY d" using wf r by (rule wf_row_length)
  have "for_upto 0 (maxY d)
          (\<lambda>c out'.
             case index (matrix d) r of
               Inl p \<Rightarrow> Inl p
             | Inr row \<Rightarrow>
                 (case index row c of
                    Inl p \<Rightarrow> Inl p
                  | Inr colr \<Rightarrow>
                      (case (case colorMap colr of None \<Rightarrow> (0, 0, 0) | Some rgb \<Rightarrow> rgb) of
                         (r0, r1, r2) \<Rightarrow>
                           Inr (out' @ format_d r0 @ '' '' @ format_d r1 @ '' '' @ format_d r2 @ '' '',
                                None)))) out
        = Inr (out @ concat (map (\<lambda>j. ppm_triplet (cell d r j)) [0..maxY d - 1]), None)"
  proof (rule for_upto_append)
    fix i out' assume i: "0 \<le> i" "i < maxY d"
    have "index (matrix d ! nat r) i = Inr (cell d r i)"
      using i len by (simp add: index_def cell_def)
    then show "(case index (matrix d) r of
               Inl p \<Rightarrow> Inl p
             | Inr row \<Rightarrow>
                 (case index row i of
                    Inl p \<Rightarrow> Inl p
                  | Inr colr \<Rightarrow>
                      (case (case colorMap colr of None \<Rightarrow> (0, 0, 0) | Some rgb \<Rightarrow> rgb) of
                         (r0, r1, r2) \<Rightarrow>
                           Inr (out' @ format_d r0 @ '' '' @ format_d r1 @ '' '' @ format_d r2 @ '' '',
                                None))))
          = Inr (out' @ ppm_triplet (cell d r i), None)"
      by (simp add: rx ppm_triplet_def split: prod.splits)
  qed
  then show ?thesis by (simp add: write_row_def ppm_line_def)
qed

lemma show_nat_examples: "show_nat 255 = ''255''" "show_nat 2 = ''2''"
  by code_simp+

lemma format_d_examples: "format_d 255 = ''255''" "format_d 2 = ''2''"
  by (simp_all add: format_d_def show_nat_examples)

lemma ppm_triplet_white: "ppm_triplet ''white'' = ''255 255 255 ''"
  by (simp add: ppm_triplet_def colorMap_def colorTable_def format_d_examples)

lemma ppm_text_fresh_2_2:
  "ppm_text (fresh 2 2) =
     ''P3'' @ [newline] @ ''2 2'' @ [newline] @ ''255'' @ [newline] @
     ''255 255 255 255 255 255 '' @ [newline] @
     ''255 255 255 255 255 255 '' @ [newline]"
proof -
  have u: "[0..(1::int)] = [0, 1]" by (simp add: upto_rec1)
  show ?thesis
    by (simp add: ppm_text_def ppm_line_def u cell_fresh ppm_triplet_white format_d_examples)
qed

section \<open>The fill loops as lists of pixels\<close>

lemma write_pixels_append:
  "write_pixels a scn c (ps @ qs) s =
     (case write_pixels a scn c ps s of
        Inl q \<Rightarrow> Inl q
      | Inr (s', Some e) \<Rightarrow> Inr (s', Some e)
      | Inr (s', None) \<Rightarrow> write_pixels a scn c qs s')"
proof (induction ps arbitrary: s)
  case Nil
  then show ?case by simp
next
  case (Cons p ps)
  show ?case
  proof (cases "drawPixel scn s (fst p) (snd p) c")
    case (Inl q)
    then show ?thesis by simp
  next
    case (Inr v)
    obtain s1 e1 where v: "v = (s1, e1)" by (cases v)
    show ?thesis
    proof (cases "a \<and> e1 \<noteq> None")
      case True
      then show ?thesis using Inr v by auto
    next
      case False
      then show ?thesis using Inr v Cons.IH [of s1] by auto
    qed
  qed
qed

lemma write_pixels_no_abort:
  "write_pixels False scn c ps s = Inr (s', e) \<Longrightarrow> e = None"
proof (induction ps arbitrary: s)
  case Nil
  then show ?case by simp
next
  case (Cons p ps)
  then show ?case by (auto split: sum.splits prod.splits)
qed

lemma write_pixels_first_error:
  assumes "write_pixels True scn c pre s = Inr (s1, None)"
    and "drawPixel scn s1 x y c = Inr (s2, Some e)"
  shows "write_pixels True scn c (pre @ (x, y) # post) s = Inr (s2, Some e)"
  using assms by (simp add: write_pixels_append)

lemma for_upto_write:
  assumes "\<And>i s. lo \<le> i \<Longrightarrow> i < hi \<Longrightarrow> body i s = write_pixels a scn c (f i) s"
  shows "for_upto lo hi body s = write_pixels a scn c (concat (map f [lo..hi - 1])) s"
  using assms
proof (induction lo hi body s rule: for_upto.induct)
  case (1 i hi body s)
  show ?case
  proof (cases "i < hi")
    case False
    then show ?thesis by (simp add: for_upto_empty)
  next
    case True
    have b: "body i s = write_pixels a scn c (f i) s" using "1.prems" True by simp
    have u: "[i..hi - 1] = i # [i + 1..hi - 1]" using True by (simp add: upto_rec1)
    show ?thesis
    proof (cases "write_pixels a scn c (f i) s")
      case (Inl q)
      then show ?thesis
        using True b by (subst for_upto.simps) (simp add: u write_pixels_append)
    next
      case (Inr v)
      obtain s1 e1 where v: "v = (s1, e1)" by (cases v)
      show ?thesis
      proof (cases e1)
        case (Some e)
        then show ?thesis
          using True b Inr v by (subst for_upto.simps) (simp add: u write_pixels_append)
      next
        case None
        have "for_upto (i + 1) hi body s1 = write_pixels a scn c (concat (map f [i + 1..hi - 1])) s1"
          using "1.IH" [OF True b [unfolded Inr v None] refl refl] "1.prems" by simp
        then show ?thesis
          using True b Inr v None by (subst for_upto.simps) (simp add: u write_pixels_append)
      qed
    qed
  qed
qed

lemma drawPixel_write: "drawPixel scn s x y c = write_pixels True scn c [(x, y)] s"
  by (auto split: sum.splits)

lemma Rectangle_draw_write:
  fixes scn :: "'s screen"
  assumes "\<not> (px (ll r) < 0 \<or> py (ll r) < 0 \<or> fst (getMaxXY scn s) \<le> px (ur r) \<or>
              snd (getMaxXY scn s) \<le> py (ur r))"
    and "\<not> colorUnknown (rect_c r)"
  shows "Rectangle_draw scn r s = write_pixels True scn (rect_c r) (rect_pixels r) s"
proof -
  have col: "for_upto (py (ll r)) (py (ur r)) (\<lambda>y s'. drawPixel scn s' x y (rect_c r)) s1
             = write_pixels True scn (rect_c r) (map (\<lambda>y. (x, y)) [py (ll r)..py (ur r) - 1]) s1"
    for x s1
    using for_upto_write [of "py (ll r)" "py (ur r)" "\<lambda>y s'. drawPixel scn s' x y (rect_c r)"
                             True scn "rect_c r" "\<lambda>y. [(x, y)]" s1]
    by (simp add: drawPixel_write [symmetric] concat_map_singleton del: write_pixels.simps)
  have "for_upto (px (ll r)) (px (ur r))
          (\<lambda>x. for_upto (py (ll r)) (py (ur r)) (\<lambda>y s'. drawPixel scn s' x y (rect_c r))) s
        = write_pixels True scn (rect_c r) (rect_pixels r) s"
    unfolding rect_pixels_def by (rule for_upto_write) (rule col)
  then show ?thesis
    using assms by (auto simp: Rectangle_draw_def split: prod.splits)
qed

lemma fill_spans_write:
  fixes scn :: "'s screen"
  assumes "int (length left) = y2 - y0 + 1" "int (length right) = y2 - y0 + 1"
  shows "fill_spans scn left right y0 y2 c s = write_pixels True scn c (span_pixels left right y0 y2) s"
proof -
  have row: "(case index left (i - y0) of
                Inl p \<Rightarrow> Inl p
              | Inr l \<Rightarrow>
                  (case index right (i - y0) of
                     Inl p \<Rightarrow> Inl p
                   | Inr r \<Rightarrow> for_upto l (r + 1) (\<lambda>xx s''. drawPixel scn s'' xx i c) s1))
             = write_pixels True scn c
                 (map (\<lambda>xx. (xx, i)) [left ! nat (i - y0)..right ! nat (i - y0)]) s1"
    if i: "y0 \<le> i" "i < y2 + 1" for i s1
  proof -
    have l: "index left (i - y0) = Inr (left ! nat (i - y0))"
      using i assms(1) by (intro index_in_range) simp_all
    have r: "index right (i - y0) = Inr (right ! nat (i - y0))"
      using i assms(2) by (intro index_in_range) simp_all
    have "for_upto (left ! nat (i - y0)) (right ! nat (i - y0) + 1)
            (\<lambda>xx s''. drawPixel scn s'' xx i c) s1
          = write_pixels True scn c
              (map (\<lambda>xx. (xx, i)) [left ! nat (i - y0)..right ! nat (i - y0)]) s1"
      using for_upto_write [of "left ! nat (i - y0)" "right ! nat (i - y0) + 1"
                               "\<lambda>xx s''. drawPixel scn s'' xx i c" True scn c "\<lambda>xx. [(xx, i)]" s1]
      by (simp add: drawPixel_write [symmetric] concat_map_singleton del: write_pixels.simps)
    then show ?thesis by (simp only: l r sum.case)
  qed
  have "for_upto y0 (y2 + 1)
          (\<lambda>yy s'. case index left (yy - y0) of
                      Inl p \<Rightarrow> Inl p
                    | Inr l \<Rightarrow>
                        (case index right (yy - y0) of
                           Inl p \<Rightarrow> Inl p
                         | Inr r \<Rightarrow> for_upto l (r + 1) (\<lambda>xx s''. drawPixel scn s'' xx yy c) s')) s
        = write_pixels True scn c
            (concat (map (\<lambda>yy. map (\<lambda>xx. (xx, yy)) [left ! nat (yy - y0)..right ! nat (yy - y0)])
                       [y0..y2 + 1 - 1])) s"
    by (rule for_upto_write) (rule row)
  then show ?thesis by (simp add: fill_spans_def span_pixels_def)
qed

lemma Circle_draw_write:
  fixes scn :: "'s screen"
  assumes "\<not> (wrap64 (px (center circ) - circ_r circ) < 0 \<or> wrap64 (py (center circ) - circ_r circ) < 0)"
    and "\<not> (fst (getMaxXY scn s) \<le> wrap64 (px (center circ) + circ_r circ) \<or>
            snd (getMaxXY scn s) \<le> wrap64 (py (center circ) + circ_r circ))"
    and "\<not> colorUnknown (circ_c circ)"
  shows "Circle_draw scn circ s = write_pixels False scn (circ_c circ) (circle_pixels circ) s"
proof -
  let ?in = "\<lambda>x y. insideCircle (center circ) \<lparr>px = x, py = y\<rparr> (float64_of_int (circ_r circ))"
  have cell: "(if ?in x y
               then (case drawPixel scn s1 x y (circ_c circ) of
                       Inl p \<Rightarrow> Inl p
                     | Inr (s'', _) \<Rightarrow> Inr (s'', None))
               else Inr (s1, None))
              = write_pixels False scn (circ_c circ) (if ?in x y then [(x, y)] else []) s1" for x y s1
    by (auto split: sum.splits)
  have row: "for_upto 0 (wrap64 (px (center circ) + circ_r circ))
               (\<lambda>x s'. if ?in x y
                        then (case drawPixel scn s' x y (circ_c circ) of
                                Inl p \<Rightarrow> Inl p
                              | Inr (s'', _) \<Rightarrow> Inr (s'', None))
                        else Inr (s', None)) s1
             = write_pixels False scn (circ_c circ)
                 (concat (map (\<lambda>x. if ?in x y then [(x, y)] else [])
                            [0..wrap64 (px (center circ) + circ_r circ) - 1])) s1" for y s1
    by (rule for_upto_write) (rule cell)
  have "for_upto 0 (wrap64 (py (center circ) + circ_r circ))
          (\<lambda>y. for_upto 0 (wrap64 (px (center circ) + circ_r circ))
                  (\<lambda>x s'. if ?in x y
                           then (case drawPixel scn s' x y (circ_c circ) of
                                   Inl p \<Rightarrow> Inl p
                                 | Inr (s'', _) \<Rightarrow> Inr (s'', None))
                           else Inr (s', None))) s
        = write_pixels False scn (circ_c circ) (circle_pixels circ) s"
    unfolding circle_pixels_def by (rule for_upto_write) (rule row)
  then show ?thesis
    using assms by (auto simp: Circle_draw_def Let_def split: prod.splits)
qed

lemma corner_triangle_spans:
  fixes scn :: "'s screen"
  assumes "4 < fst (getMaxXY scn s)" "4 < snd (getMaxXY scn s)" "\<not> colorUnknown c"
  shows "Triangle_draw scn
           \<lparr>pt0 = \<lparr>px = 0, py = 0\<rparr>, pt1 = \<lparr>px = 4, py = 0\<rparr>, pt2 = \<lparr>px = 0, py = 4\<rparr>, tri_c = c\<rparr> s
         = fill_spans scn [0, 0, 0, 0, 0] [4, 3, 2, 1, 0] 0 4 c s"
  using assms
  by (auto simp: Triangle_draw_def outOfBounds_def sort_vertices_def
        interpolate_examples slice_to_def index_def Let_def split: prod.splits)

lemma failing_screen_simps [simp]:
  "getMaxXY failing_screen = Display_getMaxXY"
  "drawPixel failing_screen = (\<lambda>s x y c. Inr (s, Some outOfBoundsErr))"
  by (simp_all add: failing_screen_def Display_screen_def)

section \<open>Claims about the rectangle\<close>

text \<open>
  Claim C7. A rectangle with a color of the table whose corners pass the bounds check
  (\<open>ll.x \<ge> 0\<close>, \<open>ll.y \<ge> 0\<close>, \<open>ur.x < width\<close>, \<open>ur.y < height\<close>), drawn on a display of the
  shape that \<^verbatim>\<open>initialize\<close> builds: \<^verbatim>\<open>draw\<close> returns \<^verbatim>\<open>nil\<close>, afterwards \<^verbatim>\<open>getPixel\<close>
  gives the fill color at every \<open>(x, y)\<close> with \<open>ll.x \<le> x < ur.x\<close> and \<open>ll.y \<le> y < ur.y\<close>, and
  at every other index pair it gives what it gave before. The witness is the rectangle
  from \<open>(2,2)\<close> to \<open>(5,5)\<close> in red on a new 10 by 10 display.
\<close>

theorem Rectangle_draw_fills:
  assumes "wf_display d" and "\<not> colorUnknown (rect_c r)"
    and "0 \<le> px (ll r)" "0 \<le> py (ll r)" "px (ur r) < maxX d" "py (ur r) < maxY d"
  shows "\<exists>d'. Rectangle_draw Display_screen r d = Inr (d', None) \<and>
              maxX d' = maxX d \<and> maxY d' = maxY d \<and>
              (\<forall>x y. Display_getPixel d' x y =
                 (if px (ll r) \<le> x \<and> x < px (ur r) \<and> py (ll r) \<le> y \<and> y < py (ur r)
                  then Inr (rect_c r, None) else Display_getPixel d x y))"
proof -
  let ?A = "{(x, y). px (ll r) \<le> x \<and> x < px (ur r) \<and> py (ll r) \<le> y \<and> y < py (ur r)}"
  obtain d' where d': "Rectangle_draw Display_screen r d = Inr (d', None)" "paints d ?A (rect_c r) d'"
    using Rectangle_draw_paints [OF assms] by blast
  have "Display_getPixel d' x y = (if (x, y) \<in> ?A then Inr (rect_c r, None) else Display_getPixel d x y)"
    for x y
    using assms by (intro paints_getPixel [OF d'(2)]) auto
  then show ?thesis
    using d' by (auto simp: paints_def)
qed

theorem Rectangle_draw_fills_witness:
  "Display_initialize Display_zero 10 10 = Inr (fresh 10 10) \<and>
   (\<exists>d'. Rectangle_draw Display_screen \<lparr>ll = \<lparr>px = 2, py = 2\<rparr>, ur = \<lparr>px = 5, py = 5\<rparr>, rect_c = ''red''\<rparr>
            (fresh 10 10) = Inr (d', None) \<and>
          (\<forall>x y. Display_getPixel d' x y =
             (if 2 \<le> x \<and> x < 5 \<and> 2 \<le> y \<and> y < 5 then Inr (''red'', None)
              else if 0 \<le> x \<and> x < 10 \<and> 0 \<le> y \<and> y < 10 then Inr (''white'', None)
              else Inr ('''', Some outOfBoundsErr))))"
proof -
  let ?r = "\<lparr>ll = \<lparr>px = 2, py = 2\<rparr>, ur = \<lparr>px = 5, py = 5\<rparr>, rect_c = ''red''\<rparr>"
  have wf: "wf_display (fresh 10 10)" by (simp add: wf_fresh)
  have g: "Display_getPixel (fresh 10 10) x y =
            (if 0 \<le> x \<and> x < 10 \<and> 0 \<le> y \<and> y < 10 then Inr (''white'', None)
             else Inr ('''', Some outOfBoundsErr))" for x y
    by (simp add: getPixel_fresh)
  have "\<exists>d'. Rectangle_draw Display_screen ?r (fresh 10 10) = Inr (d', None) \<and>
              maxX d' = maxX (fresh 10 10) \<and> maxY d' = maxY (fresh 10 10) \<and>
              (\<forall>x y. Display_getPixel d' x y =
                 (if px (ll ?r) \<le> x \<and> x < px (ur ?r) \<and> py (ll ?r) \<le> y \<and> y < py (ur ?r)
                  then Inr (rect_c ?r, None) else Display_getPixel (fresh 10 10) x y))"
    by (rule Rectangle_draw_fills [OF wf]) (simp_all add: colorUnknown_iff fresh_def)
  then obtain d' where a: "Rectangle_draw Display_screen ?r (fresh 10 10) = Inr (d', None)"
    and b: "\<And>x y. Display_getPixel d' x y =
                 (if 2 \<le> x \<and> x < 5 \<and> 2 \<le> y \<and> y < 5
                  then Inr (''red'', None) else Display_getPixel (fresh 10 10) x y)"
    by auto
  have "\<forall>x y. Display_getPixel d' x y =
             (if 2 \<le> x \<and> x < 5 \<and> 2 \<le> y \<and> y < 5 then Inr (''red'', None)
              else if 0 \<le> x \<and> x < 10 \<and> 0 \<le> y \<and> y < 10 then Inr (''white'', None)
              else Inr ('''', Some outOfBoundsErr))"
    unfolding b g by simp
  moreover have "Display_initialize Display_zero 10 10 = Inr (fresh 10 10)"
    by (simp add: initialize_fresh)
  ultimately show ?thesis
    using a by blast
qed

text \<open>
  Claim C2 (as amended). A rectangle with a negative lower-left coordinate, or with
  \<open>ur.x \<ge> width\<close> or \<open>ur.y \<ge> height\<close>, fails with the out-of-bounds error on any display
  and leaves the display as it was. A negative coordinate of the upper-right corner is
  not checked: the counterexample below is such a rectangle, and it is drawn with
  success.
\<close>

theorem Rectangle_draw_outOfBounds:
  assumes "px (ll r) < 0 \<or> py (ll r) < 0 \<or> maxX d \<le> px (ur r) \<or> maxY d \<le> py (ur r)"
  shows "Rectangle_draw Display_screen r d = Inr (d, Some outOfBoundsErr)"
  using assms by (auto simp: Rectangle_draw_def Display_getMaxXY_def)

theorem Rectangle_draw_outOfBounds_witness:
  "Display_initialize Display_zero 10 10 = Inr (fresh 10 10) \<and>
   Rectangle_draw Display_screen \<lparr>ll = \<lparr>px = 2, py = 2\<rparr>, ur = \<lparr>px = 10, py = 5\<rparr>, rect_c = ''red''\<rparr>
     (fresh 10 10) = Inr (fresh 10 10, Some outOfBoundsErr)"
  using Rectangle_draw_outOfBounds
          [of "\<lparr>ll = \<lparr>px = 2, py = 2\<rparr>, ur = \<lparr>px = 10, py = 5\<rparr>, rect_c = ''red''\<rparr>" "fresh 10 10"]
  by (simp add: initialize_fresh)

theorem Rectangle_draw_negative_ur_counterexample:
  "Display_initialize Display_zero 10 10 = Inr (fresh 10 10) \<and>
   px (ur \<lparr>ll = \<lparr>px = 0, py = 0\<rparr>, ur = \<lparr>px = - 1, py = - 1\<rparr>, rect_c = ''red''\<rparr>) < 0 \<and>
   Rectangle_draw Display_screen \<lparr>ll = \<lparr>px = 0, py = 0\<rparr>, ur = \<lparr>px = - 1, py = - 1\<rparr>, rect_c = ''red''\<rparr>
     (fresh 10 10) = Inr (fresh 10 10, None) \<and>
   Rectangle_draw Display_screen \<lparr>ll = \<lparr>px = 0, py = 0\<rparr>, ur = \<lparr>px = - 1, py = - 1\<rparr>, rect_c = ''red''\<rparr>
     (fresh 10 10) \<noteq> Inr (fresh 10 10, Some outOfBoundsErr)"
  by (simp add: initialize_fresh Rectangle_draw_def Display_getMaxXY_def colorUnknown_iff for_upto_empty)

text \<open>
  Claim C10. A rectangle with a color of the table that passes the bounds check and whose
  half-open range is empty (\<open>ur.x \<le> ll.x\<close> or \<open>ur.y \<le> ll.y\<close>, which includes a negative
  upper-right corner) is drawn with success and the display stays as it was.
\<close>

theorem Rectangle_draw_empty_range:
  assumes "\<not> colorUnknown (rect_c r)"
    and "0 \<le> px (ll r)" "0 \<le> py (ll r)" "px (ur r) < maxX d" "py (ur r) < maxY d"
    and "px (ur r) \<le> px (ll r) \<or> py (ur r) \<le> py (ll r)"
  shows "Rectangle_draw Display_screen r d = Inr (d, None)"
proof -
  have "for_upto (px (ll r)) (px (ur r))
          (\<lambda>x. for_upto (py (ll r)) (py (ur r)) (\<lambda>y s'. Display_drawPixel s' x y (rect_c r))) d
        = Inr (d, None)"
  proof (cases "px (ur r) \<le> px (ll r)")
    case True
    then show ?thesis by (rule for_upto_empty)
  next
    case False
    with assms(6) have "py (ur r) \<le> py (ll r)" by simp
    then show ?thesis by (intro for_upto_noop for_upto_empty)
  qed
  then show ?thesis
    using assms by (simp add: Rectangle_draw_def Display_getMaxXY_def)
qed

theorem Rectangle_draw_empty_range_witness:
  "Display_initialize Display_zero 10 10 = Inr (fresh 10 10) \<and>
   Rectangle_draw Display_screen \<lparr>ll = \<lparr>px = 3, py = 4\<rparr>, ur = \<lparr>px = 7, py = - 2\<rparr>, rect_c = ''blue''\<rparr>
     (fresh 10 10) = Inr (fresh 10 10, None)"
  using Rectangle_draw_empty_range
          [of "\<lparr>ll = \<lparr>px = 3, py = 4\<rparr>, ur = \<lparr>px = 7, py = - 2\<rparr>, rect_c = ''blue''\<rparr>" "fresh 10 10"]
  by (simp add: initialize_fresh colorUnknown_iff)

section \<open>Claims about the circle\<close>

text \<open>
  Claim C3 (as amended). A circle with radius \<open>r \<ge> 0\<close> and a color of the table that passes
  the bounds check (\<open>cx - r \<ge> 0\<close>, \<open>cy - r \<ge> 0\<close>, \<open>cx + r < width\<close>, \<open>cy + r < height\<close>), drawn
  on a display of the initialized shape, with \<open>r < 2^26\<close> (beyond that the rounding of
  \<^verbatim>\<open>insideCircle\<close> shows) and the sizes of the display in the range of the type
  \<^verbatim>\<open>int\<close>: \<^verbatim>\<open>draw\<close> returns \<^verbatim>\<open>nil\<close>, afterwards
  \<^verbatim>\<open>getPixel\<close> gives the fill color at every \<open>(x, y)\<close> with \<open>0 \<le> x < cx + r\<close>,
  \<open>0 \<le> y < cy + r\<close> and Euclidean distance to the center at most \<open>r\<close>, and at every other
  index pair it gives what it gave before. A cell outside that region that held the fill
  color before the draw still holds it, so "exactly when" fails, as the counterexample
  shows: a red circle on a display whose corner was drawn red before, and a white circle
  on a new display.
\<close>

theorem Circle_draw_fills:
  assumes "wf_display d" and "\<not> colorUnknown (circ_c circ)"
    and "0 \<le> circ_r circ"
    and "0 \<le> px (center circ) - circ_r circ" "0 \<le> py (center circ) - circ_r circ"
    and "px (center circ) + circ_r circ < maxX d" "py (center circ) + circ_r circ < maxY d"
    and "circ_r circ < 2 ^ 26" "maxX d < 2 ^ 63" "maxY d < 2 ^ 63"
  shows "\<exists>d'. Circle_draw Display_screen circ d = Inr (d', None) \<and>
           (\<forall>x y. Display_getPixel d' x y =
              (if 0 \<le> x \<and> x < px (center circ) + circ_r circ \<and>
                  0 \<le> y \<and> y < py (center circ) + circ_r circ \<and>
                  sqrt (real_of_int ((px (center circ) - x)\<^sup>2 + (py (center circ) - y)\<^sup>2))
                    \<le> real_of_int (circ_r circ)
               then Inr (circ_c circ, None) else Display_getPixel d x y))"
proof -
  let ?cx = "px (center circ)" and ?cy = "py (center circ)" and ?r = "circ_r circ"
  let ?A = "{(x, y). 0 \<le> x \<and> x < ?cx + ?r \<and> 0 \<le> y \<and> y < ?cy + ?r \<and>
                     (?cx - x) * (?cx - x) + (?cy - y) * (?cy - y) \<le> ?r * ?r}"
  obtain d' where d': "Circle_draw Display_screen circ d = Inr (d', None)"
    "paints d ?A (circ_c circ) d'"
    using Circle_draw_paints [of d circ] assms by auto
  have g: "Display_getPixel d' x y = (if (x, y) \<in> ?A then Inr (circ_c circ, None) else Display_getPixel d x y)"
    for x y
    using assms by (intro paints_getPixel [OF d'(2)]) auto
  have e: "sqrt (real_of_int ((?cx - x)\<^sup>2 + (?cy - y)\<^sup>2)) \<le> real_of_int ?r
            \<longleftrightarrow> (?cx - x) * (?cx - x) + (?cy - y) * (?cy - y) \<le> ?r * ?r" for x y
    using sqrt_le_int_iff [of ?r "(?cx - x)\<^sup>2 + (?cy - y)\<^sup>2"] assms(3)
    by (simp add: power2_eq_square)
  show ?thesis
  proof (intro exI conjI allI)
    show "Circle_draw Display_screen circ d = Inr (d', None)" by fact
  next
    fix x y
    show "Display_getPixel d' x y =
              (if 0 \<le> x \<and> x < ?cx + ?r \<and> 0 \<le> y \<and> y < ?cy + ?r \<and>
                  sqrt (real_of_int ((?cx - x)\<^sup>2 + (?cy - y)\<^sup>2)) \<le> real_of_int ?r
               then Inr (circ_c circ, None) else Display_getPixel d x y)"
      unfolding g e by simp
  qed
qed

theorem Circle_draw_fills_witness:
  "Display_initialize Display_zero 12 12 = Inr (fresh 12 12) \<and>
   (\<exists>d'. Circle_draw Display_screen \<lparr>center = \<lparr>px = 5, py = 5\<rparr>, circ_r = 3, circ_c = ''red''\<rparr>
            (fresh 12 12) = Inr (d', None) \<and>
          Display_getPixel d' 5 5 = Inr (''red'', None) \<and>
          Display_getPixel d' 5 2 = Inr (''red'', None) \<and>
          Display_getPixel d' 0 0 = Inr (''white'', None))"
proof -
  let ?c = "\<lparr>center = \<lparr>px = 5, py = 5\<rparr>, circ_r = 3, circ_c = ''red''\<rparr>"
  have "\<exists>d'. Circle_draw Display_screen ?c (fresh 12 12) = Inr (d', None) \<and>
           (\<forall>x y. Display_getPixel d' x y =
              (if 0 \<le> x \<and> x < px (center ?c) + circ_r ?c \<and>
                  0 \<le> y \<and> y < py (center ?c) + circ_r ?c \<and>
                  sqrt (real_of_int ((px (center ?c) - x)\<^sup>2 + (py (center ?c) - y)\<^sup>2))
                    \<le> real_of_int (circ_r ?c)
               then Inr (circ_c ?c, None) else Display_getPixel (fresh 12 12) x y))"
    by (rule Circle_draw_fills) (simp_all add: wf_fresh colorUnknown_iff)
  then obtain d' where a: "Circle_draw Display_screen ?c (fresh 12 12) = Inr (d', None)"
    and g: "\<And>x y. Display_getPixel d' x y =
              (if 0 \<le> x \<and> x < px (center ?c) + circ_r ?c \<and>
                  0 \<le> y \<and> y < py (center ?c) + circ_r ?c \<and>
                  sqrt (real_of_int ((px (center ?c) - x)\<^sup>2 + (py (center ?c) - y)\<^sup>2))
                    \<le> real_of_int (circ_r ?c)
               then Inr (circ_c ?c, None) else Display_getPixel (fresh 12 12) x y)"
    by blast
  have s9: "sqrt 9 = (3::real)" using real_sqrt_abs [of "3::real"] by simp
  have s50: "\<not> sqrt 50 \<le> (3::real)"
  proof -
    have "3 < sqrt (50::real)" by (rule real_less_rsqrt) simp
    then show ?thesis by simp
  qed
  have "Display_getPixel d' 5 5 = Inr (''red'', None)" unfolding g by simp
  moreover have "Display_getPixel d' 5 2 = Inr (''red'', None)" unfolding g by (simp add: s9)
  moreover have "Display_getPixel d' 0 0 = Inr (''white'', None)"
    unfolding g by (simp add: s50 getPixel_fresh)
  moreover have "Display_initialize Display_zero 12 12 = Inr (fresh 12 12)"
    by (simp add: initialize_fresh)
  ultimately show ?thesis using a by blast
qed

theorem Circle_draw_same_color_counterexample:
  "Display_drawPixel (fresh 12 12) 0 0 ''red'' = Inr (red_corner, None) \<and>
   (\<exists>d'. Circle_draw Display_screen \<lparr>center = \<lparr>px = 5, py = 5\<rparr>, circ_r = 3, circ_c = ''red''\<rparr>
            red_corner = Inr (d', None) \<and>
          Display_getPixel d' 0 0 = Inr (''red'', None)) \<and>
   Circle_draw Display_screen \<lparr>center = \<lparr>px = 5, py = 5\<rparr>, circ_r = 3, circ_c = ''white''\<rparr>
     (fresh 12 12) = Inr (fresh 12 12, None) \<and>
   Display_getPixel (fresh 12 12) 0 0 = Inr (''white'', None) \<and>
   \<not> sqrt (real_of_int ((5 - 0)\<^sup>2 + (5 - 0)\<^sup>2)) \<le> real_of_int 3"
proof -
  let ?c = "\<lparr>center = \<lparr>px = 5, py = 5\<rparr>, circ_r = 3, circ_c = ''white''\<rparr>"
  let ?r = "\<lparr>center = \<lparr>px = 5, py = 5\<rparr>, circ_r = 3, circ_c = ''red''\<rparr>"
  let ?A = "{(x, y). 0 \<le> x \<and> x < px (center ?r) + circ_r ?r \<and>
                     0 \<le> y \<and> y < py (center ?r) + circ_r ?r \<and>
                     (px (center ?r) - x) * (px (center ?r) - x) +
                     (py (center ?r) - y) * (py (center ?r) - y) \<le> circ_r ?r * circ_r ?r}"
  have wf: "wf_display (fresh 12 12)" by (simp add: wf_fresh)
  obtain d' A where d': "Circle_draw Display_screen ?c (fresh 12 12) = Inr (d', None)"
    "paints (fresh 12 12) A (circ_c ?c) d'"
    using Circle_draw_paints [OF wf, of ?c] by (auto simp: colorUnknown_iff)
  have "d' = fresh 12 12"
    using d'(2) wf by (rule paints_unchanged) (simp add: cell_fresh)
  then have white: "Circle_draw Display_screen ?c (fresh 12 12) = Inr (fresh 12 12, None)"
    using d'(1) by simp
  obtain e' where e': "Circle_draw Display_screen ?r red_corner = Inr (e', None)"
    "paints red_corner ?A (circ_c ?r) e'"
    using Circle_draw_paints [OF red_corner_wf(1), of ?r]
    by (auto simp: colorUnknown_iff red_corner_wf)
  have "Display_getPixel e' 0 0 =
          (if (0, 0) \<in> ?A then Inr (circ_c ?r, None) else Display_getPixel red_corner 0 0)"
    by (rule paints_getPixel [OF e'(2) red_corner_wf(1)])
       (auto simp: colorUnknown_iff red_corner_wf)
  then have red: "Display_getPixel e' 0 0 = Inr (''red'', None)"
    by (simp add: red_corner_cell)
  have far: "\<not> sqrt (real_of_int ((5 - 0)\<^sup>2 + (5 - 0)\<^sup>2)) \<le> real_of_int 3"
    using sqrt_le_int_iff [of 3 "(5 - 0)\<^sup>2 + (5 - 0)\<^sup>2"] by simp
  have "Display_getPixel (fresh 12 12) 0 0 = Inr (''white'', None)"
    by (simp add: getPixel_fresh)
  then show ?thesis using white red e'(1) far red_corner_drawn by blast
qed

section \<open>Claims about all shapes\<close>

text \<open>
  Claim C8. A color is unknown exactly when it is none of the nine names of the table. A
  rectangle, a triangle or a circle whose color is unknown and whose geometry passes the
  bounds check of its \<^verbatim>\<open>draw\<close> fails with the invalid-color error, and the screen is
  returned as it was, whatever the implementation of the screen.
\<close>

theorem unknown_color_rejected:
  fixes scn :: "'s screen"
  shows "(colorUnknown c \<longleftrightarrow>
            c \<notin> {''red'', ''green'', ''blue'', ''yellow'', ''orange'', ''purple'', ''brown'',
                 ''black'', ''white''}) \<and>
         (colorUnknown (rect_c r) \<and>
          \<not> (px (ll r) < 0 \<or> py (ll r) < 0 \<or> fst (getMaxXY scn s) \<le> px (ur r)
              \<or> snd (getMaxXY scn s) \<le> py (ur r))
            \<longrightarrow> Rectangle_draw scn r s = Inr (s, Some colorUnknownErr)) \<and>
         (colorUnknown (tri_c t) \<and>
          \<not> (outOfBounds scn (pt0 t) s \<or> outOfBounds scn (pt1 t) s \<or> outOfBounds scn (pt2 t) s)
            \<longrightarrow> Triangle_draw scn t s = Inr (s, Some colorUnknownErr)) \<and>
         (colorUnknown (circ_c circ) \<and>
          \<not> (wrap64 (px (center circ) - circ_r circ) < 0 \<or> wrap64 (py (center circ) - circ_r circ) < 0) \<and>
          \<not> (fst (getMaxXY scn s) \<le> wrap64 (px (center circ) + circ_r circ) \<or>
              snd (getMaxXY scn s) \<le> wrap64 (py (center circ) + circ_r circ))
            \<longrightarrow> Circle_draw scn circ s = Inr (s, Some colorUnknownErr))"
  by (auto simp: colorUnknown_iff Rectangle_draw_def Triangle_draw_def Circle_draw_def
        split: prod.splits)

theorem unknown_color_rejected_witness:
  "colorUnknown ''pink'' \<and>
   Rectangle_draw Display_screen \<lparr>ll = \<lparr>px = 2, py = 2\<rparr>, ur = \<lparr>px = 5, py = 5\<rparr>, rect_c = ''pink''\<rparr>
     (fresh 10 10) = Inr (fresh 10 10, Some colorUnknownErr) \<and>
   Triangle_draw Display_screen
     \<lparr>pt0 = \<lparr>px = 0, py = 0\<rparr>, pt1 = \<lparr>px = 4, py = 0\<rparr>, pt2 = \<lparr>px = 0, py = 4\<rparr>, tri_c = ''pink''\<rparr>
     (fresh 10 10) = Inr (fresh 10 10, Some colorUnknownErr) \<and>
   Circle_draw Display_screen \<lparr>center = \<lparr>px = 5, py = 5\<rparr>, circ_r = 3, circ_c = ''pink''\<rparr>
     (fresh 10 10) = Inr (fresh 10 10, Some colorUnknownErr)"
  using unknown_color_rejected
    [where c = "''pink''"
       and r = "\<lparr>ll = \<lparr>px = 2, py = 2\<rparr>, ur = \<lparr>px = 5, py = 5\<rparr>, rect_c = ''pink''\<rparr>"
       and t = "\<lparr>pt0 = \<lparr>px = 0, py = 0\<rparr>, pt1 = \<lparr>px = 4, py = 0\<rparr>, pt2 = \<lparr>px = 0, py = 4\<rparr>, tri_c = ''pink''\<rparr>"
       and circ = "\<lparr>center = \<lparr>px = 5, py = 5\<rparr>, circ_r = 3, circ_c = ''pink''\<rparr>"
       and scn = Display_screen and s = "fresh 10 10"]
  by (simp add: outOfBounds_def Display_getMaxXY_def wrap64_def)

text \<open>
  Claim C5. For every implementation of the screen: a rectangle and a triangle that pass
  their checks write their pixels in loop order and abort at the first error of
  \<^verbatim>\<open>drawPixel\<close>, which is the result of \<^verbatim>\<open>draw\<close> (the pixels after it are not written); a
  circle that passes its checks writes its pixels dropping every result, so that \<^verbatim>\<open>draw\<close>
  never returns an error, and returns \<^verbatim>\<open>nil\<close> whenever \<^verbatim>\<open>drawPixel\<close> does not panic. The
  witness is a screen on which every \<^verbatim>\<open>drawPixel\<close> fails.
\<close>

theorem error_propagation:
  fixes scn :: "'s screen"
  shows
   "(\<not> (px (ll r) < 0 \<or> py (ll r) < 0 \<or> fst (getMaxXY scn s) \<le> px (ur r) \<or>
         snd (getMaxXY scn s) \<le> py (ur r)) \<and> \<not> colorUnknown (rect_c r)
       \<longrightarrow> Rectangle_draw scn r s = write_pixels True scn (rect_c r) (rect_pixels r) s) \<and>
    (\<not> (outOfBounds scn (pt0 t) s \<or> outOfBounds scn (pt1 t) s \<or> outOfBounds scn (pt2 t) s) \<and>
     \<not> colorUnknown (tri_c t)
       \<longrightarrow> (\<exists>left right y0 y2.
              Triangle_draw scn t s = write_pixels True scn (tri_c t) (span_pixels left right y0 y2) s)) \<and>
    (\<not> (wrap64 (px (center circ) - circ_r circ) < 0 \<or> wrap64 (py (center circ) - circ_r circ) < 0) \<and>
     \<not> (fst (getMaxXY scn s) \<le> wrap64 (px (center circ) + circ_r circ) \<or>
         snd (getMaxXY scn s) \<le> wrap64 (py (center circ) + circ_r circ)) \<and>
     \<not> colorUnknown (circ_c circ)
       \<longrightarrow> Circle_draw scn circ s = write_pixels False scn (circ_c circ) (circle_pixels circ) s \<and>
           (\<forall>s' e. Circle_draw scn circ s = Inr (s', e) \<longrightarrow> e = None) \<and>
           ((\<forall>s1 x y. \<exists>s2 e. drawPixel scn s1 x y (circ_c circ) = Inr (s2, e))
              \<longrightarrow> (\<exists>s'. Circle_draw scn circ s = Inr (s', None)))) \<and>
    (\<forall>pre x y post s1 s2 e.
       write_pixels True scn c pre s = Inr (s1, None) \<and> drawPixel scn s1 x y c = Inr (s2, Some e)
         \<longrightarrow> write_pixels True scn c (pre @ (x, y) # post) s = Inr (s2, Some e))"
proof (intro conjI impI allI)
  assume "\<not> (px (ll r) < 0 \<or> py (ll r) < 0 \<or> fst (getMaxXY scn s) \<le> px (ur r) \<or>
         snd (getMaxXY scn s) \<le> py (ur r)) \<and> \<not> colorUnknown (rect_c r)"
  then show "Rectangle_draw scn r s = write_pixels True scn (rect_c r) (rect_pixels r) s"
    by (intro Rectangle_draw_write) simp_all
next
  assume a: "\<not> (outOfBounds scn (pt0 t) s \<or> outOfBounds scn (pt1 t) s \<or> outOfBounds scn (pt2 t) s) \<and>
     \<not> colorUnknown (tri_c t)"
  obtain left right y0 y2 where l: "int (length left) = y2 - y0 + 1" "int (length right) = y2 - y0 + 1"
    and eq: "Triangle_draw scn t s =
             (if outOfBounds scn (pt0 t) s \<or> outOfBounds scn (pt1 t) s \<or> outOfBounds scn (pt2 t) s
              then Inr (s, Some outOfBoundsErr)
              else if colorUnknown (tri_c t) then Inr (s, Some colorUnknownErr)
              else fill_spans scn left right y0 y2 (tri_c t) s)"
    using Triangle_draw_cases [where scn = scn and t = t and s = s] by blast
  have "Triangle_draw scn t s = write_pixels True scn (tri_c t) (span_pixels left right y0 y2) s"
    using a eq fill_spans_write [OF l] by simp
  then show "\<exists>left right y0 y2.
              Triangle_draw scn t s = write_pixels True scn (tri_c t) (span_pixels left right y0 y2) s"
    by blast
next
  assume a: "\<not> (wrap64 (px (center circ) - circ_r circ) < 0 \<or> wrap64 (py (center circ) - circ_r circ) < 0) \<and>
     \<not> (fst (getMaxXY scn s) \<le> wrap64 (px (center circ) + circ_r circ) \<or>
         snd (getMaxXY scn s) \<le> wrap64 (py (center circ) + circ_r circ)) \<and>
     \<not> colorUnknown (circ_c circ)"
  then show w: "Circle_draw scn circ s = write_pixels False scn (circ_c circ) (circle_pixels circ) s"
    by (intro Circle_draw_write) simp_all
  fix s' e
  assume "Circle_draw scn circ s = Inr (s', e)"
  then show "e = None" using w write_pixels_no_abort by metis
next
  assume a: "\<not> (wrap64 (px (center circ) - circ_r circ) < 0 \<or> wrap64 (py (center circ) - circ_r circ) < 0) \<and>
     \<not> (fst (getMaxXY scn s) \<le> wrap64 (px (center circ) + circ_r circ) \<or>
         snd (getMaxXY scn s) \<le> wrap64 (py (center circ) + circ_r circ)) \<and>
     \<not> colorUnknown (circ_c circ)"
  assume np: "\<forall>s1 x y. \<exists>s2 e. drawPixel scn s1 x y (circ_c circ) = Inr (s2, e)"
  have w: "Circle_draw scn circ s = write_pixels False scn (circ_c circ) (circle_pixels circ) s"
    using a by (intro Circle_draw_write) simp_all
  have "\<exists>s'. (Circle_draw scn circ s = Inr (s', None) \<or>
               Circle_draw scn circ s = Inr (s', Some outOfBoundsErr) \<and> s' = s \<or>
               Circle_draw scn circ s = Inr (s', Some colorUnknownErr) \<and> s' = s) \<and> True"
    by (rule Circle_draw_preserves [where I = "\<lambda>_. True"]) (use np in auto)
  then show "\<exists>s'. Circle_draw scn circ s = Inr (s', None)"
    unfolding w using write_pixels_no_abort [of scn "circ_c circ" "circle_pixels circ" s] by auto
next
  fix pre x y post s1 s2 e
  assume "write_pixels True scn c pre s = Inr (s1, None) \<and> drawPixel scn s1 x y c = Inr (s2, Some e)"
  then show "write_pixels True scn c (pre @ (x, y) # post) s = Inr (s2, Some e)"
    using write_pixels_first_error [of scn c pre s s1 x y s2 e post] by simp
qed

theorem error_propagation_witness:
  "Rectangle_draw failing_screen \<lparr>ll = \<lparr>px = 2, py = 2\<rparr>, ur = \<lparr>px = 4, py = 4\<rparr>, rect_c = ''red''\<rparr>
     (fresh 10 10) = Inr (fresh 10 10, Some outOfBoundsErr) \<and>
   Triangle_draw failing_screen
     \<lparr>pt0 = \<lparr>px = 0, py = 0\<rparr>, pt1 = \<lparr>px = 4, py = 0\<rparr>, pt2 = \<lparr>px = 0, py = 4\<rparr>, tri_c = ''green''\<rparr>
     (fresh 10 10) = Inr (fresh 10 10, Some outOfBoundsErr) \<and>
   Circle_draw failing_screen \<lparr>center = \<lparr>px = 5, py = 5\<rparr>, circ_r = 3, circ_c = ''blue''\<rparr>
     (fresh 10 10) = Inr (fresh 10 10, None)"
proof -
  let ?r = "\<lparr>ll = \<lparr>px = 2, py = 2\<rparr>, ur = \<lparr>px = 4, py = 4\<rparr>, rect_c = ''red''\<rparr>"
  let ?t = "\<lparr>pt0 = \<lparr>px = 0, py = 0\<rparr>, pt1 = \<lparr>px = 4, py = 0\<rparr>, pt2 = \<lparr>px = 0, py = 4\<rparr>, tri_c = ''green''\<rparr>"
  let ?c = "\<lparr>center = \<lparr>px = 5, py = 5\<rparr>, circ_r = 3, circ_c = ''blue''\<rparr>"
  note T = error_propagation [where scn = failing_screen and s = "fresh 10 10" and r = ?r and circ = ?c]
  have drop: "write_pixels False failing_screen c ps (fresh 10 10) = Inr (fresh 10 10, None)" for c ps
    by (induction ps) simp_all
  have stop: "write_pixels True failing_screen c (p # ps) (fresh 10 10)
              = Inr (fresh 10 10, Some outOfBoundsErr)" for c p ps
    by simp
  have "Rectangle_draw failing_screen ?r (fresh 10 10)
        = write_pixels True failing_screen (rect_c ?r) (rect_pixels ?r) (fresh 10 10)"
    using T by (simp add: Display_getMaxXY_def colorUnknown_iff)
  moreover have "rect_pixels ?r = [(2, 2), (2, 3), (3, 2), (3, 3)]"
    by (simp add: rect_pixels_def upto_rec1)
  ultimately have 1: "Rectangle_draw failing_screen ?r (fresh 10 10)
                      = Inr (fresh 10 10, Some outOfBoundsErr)"
    by (simp only: stop)
  have "Circle_draw failing_screen ?c (fresh 10 10)
        = write_pixels False failing_screen (circ_c ?c) (circle_pixels ?c) (fresh 10 10)"
    using T by (simp add: Display_getMaxXY_def colorUnknown_iff wrap64_def)
  then have 3: "Circle_draw failing_screen ?c (fresh 10 10) = Inr (fresh 10 10, None)"
    by (simp only: drop)
  have "Triangle_draw failing_screen ?t (fresh 10 10)
        = fill_spans failing_screen [0, 0, 0, 0, 0] [4, 3, 2, 1, 0] 0 4 ''green'' (fresh 10 10)"
    by (rule corner_triangle_spans) (simp_all add: Display_getMaxXY_def colorUnknown_iff)
  also have "\<dots> = write_pixels True failing_screen ''green''
                     (span_pixels [0, 0, 0, 0, 0] [4, 3, 2, 1, 0] 0 4) (fresh 10 10)"
    by (rule fill_spans_write) simp_all
  also have "span_pixels [0, 0, 0, 0, 0] [4, 3, 2, 1, 0] 0 4
             = (0, 0) # tl (span_pixels [0, 0, 0, 0, 0] [4, 3, 2, 1, 0] 0 4)"
    by (simp add: span_pixels_def upto_rec1 [of 0 4])
  finally have 2: "Triangle_draw failing_screen ?t (fresh 10 10)
                   = Inr (fresh 10 10, Some outOfBoundsErr)"
    by (simp only: stop)
  show ?thesis using 1 2 3 by simp
qed

section \<open>Claims about the triangle\<close>

text \<open>
  Claim C1, as amended. The triangle with the vertices \<open>(0,0)\<close>, \<open>(4,0)\<close>, \<open>(0,4)\<close>, given in
  any order, and a color of the table, drawn on a display of the initialized shape that is
  more than 4 wide and high: \<^verbatim>\<open>draw\<close> returns \<^verbatim>\<open>nil\<close>, afterwards \<^verbatim>\<open>getPixel\<close> gives the
  fill color at every \<open>(x, y)\<close> with \<open>x \<ge> 0\<close>, \<open>y \<ge> 0\<close> and \<open>x + y \<le> 4\<close>, and at every other
  index pair it gives what it gave before: the background color on a new display, as the
  witness shows.
\<close>

theorem corner_triangle_fills:
  assumes "wf_display d" and "4 < maxX d" "4 < maxY d" and "\<not> colorUnknown (tri_c t)"
    and "set [pt0 t, pt1 t, pt2 t] = {\<lparr>px = 0, py = 0\<rparr>, \<lparr>px = 4, py = 0\<rparr>, \<lparr>px = 0, py = 4\<rparr>}"
  shows "\<exists>d'. Triangle_draw Display_screen t d = Inr (d', None) \<and>
              (\<forall>x y. Display_getPixel d' x y =
                 (if 0 \<le> x \<and> 0 \<le> y \<and> x + y \<le> 4 then Inr (tri_c t, None)
                  else Display_getPixel d x y))"
proof -
  let ?A = "{(x, y). 0 \<le> x \<and> 0 \<le> y \<and> x + y \<le> (4::int)}"
  have eq: "Triangle_draw Display_screen t d
         = fill_spans Display_screen [0, 0, 0, 0, 0] [4, 3, 2, 1, 0] 0 4 (tri_c t) d"
    using assms(5,2,3,4) by (rule corner_triangle_draw)
  obtain d' where d': "Triangle_draw Display_screen t d = Inr (d', None)" "paints d ?A (tri_c t) d'"
    using corner_spans_paint [OF assms(1-4)] unfolding eq by blast
  have "Display_getPixel d' x y = (if (x, y) \<in> ?A then Inr (tri_c t, None) else Display_getPixel d x y)"
    for x y
    using assms by (intro paints_getPixel [OF d'(2)]) auto
  then show ?thesis using d'(1) by simp
qed

theorem corner_triangle_fills_witness:
  "Display_initialize Display_zero 5 5 = Inr (fresh 5 5) \<and>
   (\<exists>d'. Triangle_draw Display_screen
            \<lparr>pt0 = \<lparr>px = 0, py = 4\<rparr>, pt1 = \<lparr>px = 0, py = 0\<rparr>, pt2 = \<lparr>px = 4, py = 0\<rparr>, tri_c = ''green''\<rparr>
            (fresh 5 5) = Inr (d', None) \<and>
          (\<forall>x y. Display_getPixel d' x y =
             (if 0 \<le> x \<and> 0 \<le> y \<and> x + y \<le> 4 then Inr (''green'', None)
              else if 0 \<le> x \<and> x < 5 \<and> 0 \<le> y \<and> y < 5 then Inr (''white'', None)
              else Inr ('''', Some outOfBoundsErr))))"
proof -
  let ?t = "\<lparr>pt0 = \<lparr>px = 0, py = 4\<rparr>, pt1 = \<lparr>px = 0, py = 0\<rparr>, pt2 = \<lparr>px = 4, py = 0\<rparr>, tri_c = ''green''\<rparr>"
  have "\<exists>d'. Triangle_draw Display_screen ?t (fresh 5 5) = Inr (d', None) \<and>
          (\<forall>x y. Display_getPixel d' x y =
             (if 0 \<le> x \<and> 0 \<le> y \<and> x + y \<le> 4 then Inr (tri_c ?t, None)
              else Display_getPixel (fresh 5 5) x y))"
    by (rule corner_triangle_fills) (auto simp: wf_fresh colorUnknown_iff)
  then obtain d' where a: "Triangle_draw Display_screen ?t (fresh 5 5) = Inr (d', None)"
    and g: "\<And>x y. Display_getPixel d' x y =
             (if 0 \<le> x \<and> 0 \<le> y \<and> x + y \<le> 4 then Inr (''green'', None)
              else Display_getPixel (fresh 5 5) x y)"
    by auto
  have "\<forall>x y. Display_getPixel d' x y =
             (if 0 \<le> x \<and> 0 \<le> y \<and> x + y \<le> 4 then Inr (''green'', None)
              else if 0 \<le> x \<and> x < 5 \<and> 0 \<le> y \<and> y < 5 then Inr (''white'', None)
              else Inr ('''', Some outOfBoundsErr))"
    unfolding g by (simp add: getPixel_fresh)
  moreover have "Display_initialize Display_zero 5 5 = Inr (fresh 5 5)"
    by (simp add: initialize_fresh)
  ultimately show ?thesis using a by blast
qed

text \<open>
  The cells that hold the fill color after the draw are not only those of the region: a
  cell outside it that held the fill color before holds it still. On a new \<open>5 \<times> 5\<close> display
  a white triangle changes nothing, and \<open>(4, 4)\<close> is white; after
  \<^verbatim>\<open>drawPixel(4, 4, "green")\<close> a green triangle leaves \<open>(4, 4)\<close> green.
\<close>

theorem corner_triangle_same_color_counterexample:
  "Display_initialize Display_zero 5 5 = Inr (fresh 5 5) \<and>
   Triangle_draw Display_screen
     \<lparr>pt0 = \<lparr>px = 0, py = 0\<rparr>, pt1 = \<lparr>px = 4, py = 0\<rparr>, pt2 = \<lparr>px = 0, py = 4\<rparr>, tri_c = ''white''\<rparr>
     (fresh 5 5) = Inr (fresh 5 5, None) \<and>
   Display_getPixel (fresh 5 5) 4 4 = Inr (''white'', None) \<and>
   (\<exists>d1 d'. Display_drawPixel (fresh 5 5) 4 4 ''green'' = Inr (d1, None) \<and>
      Triangle_draw Display_screen
        \<lparr>pt0 = \<lparr>px = 0, py = 0\<rparr>, pt1 = \<lparr>px = 4, py = 0\<rparr>, pt2 = \<lparr>px = 0, py = 4\<rparr>, tri_c = ''green''\<rparr>
        d1 = Inr (d', None) \<and>
      Display_getPixel d' 4 4 = Inr (''green'', None)) \<and>
   \<not> (4 + 4 \<le> (4::int))"
proof -
  let ?w = "\<lparr>pt0 = \<lparr>px = 0, py = 0\<rparr>, pt1 = \<lparr>px = 4, py = 0\<rparr>, pt2 = \<lparr>px = 0, py = 4\<rparr>, tri_c = ''white''\<rparr>"
  let ?g = "\<lparr>pt0 = \<lparr>px = 0, py = 0\<rparr>, pt1 = \<lparr>px = 4, py = 0\<rparr>, pt2 = \<lparr>px = 0, py = 4\<rparr>, tri_c = ''green''\<rparr>"
  let ?A = "{(x, y). 0 \<le> x \<and> 0 \<le> y \<and> x + y \<le> (4::int)}"
  have wf: "wf_display (fresh 5 5)" by (simp add: wf_fresh)
  have eq: "Triangle_draw Display_screen ?w (fresh 5 5)
         = fill_spans Display_screen [0, 0, 0, 0, 0] [4, 3, 2, 1, 0] 0 4 ''white'' (fresh 5 5)"
    using corner_triangle_draw [of ?w "fresh 5 5"] by (simp add: colorUnknown_iff)
  obtain d' where d': "Triangle_draw Display_screen ?w (fresh 5 5) = Inr (d', None)"
      "paints (fresh 5 5) ?A ''white'' d'"
    using corner_spans_paint [OF wf, of "''white''"] unfolding eq
    by (auto simp: colorUnknown_iff)
  have "d' = fresh 5 5"
    using d'(2) wf by (rule paints_unchanged) (simp add: cell_fresh)
  then have white: "Triangle_draw Display_screen ?w (fresh 5 5) = Inr (fresh 5 5, None)"
    using d'(1) by simp
  obtain d1 where d1: "Display_drawPixel (fresh 5 5) 4 4 ''green'' = Inr (d1, None)"
      "paints (fresh 5 5) {(4, 4)} ''green'' d1"
    using drawPixel_paints [OF wf, of 4 4 "''green''"] by (auto simp: colorUnknown_iff)
  have wf1: "wf_display d1" "maxX d1 = 5" "maxY d1 = 5" and c1: "cell d1 4 4 = ''green''"
    using d1(2) by (simp_all add: paints_def)
  have g1: "Display_getPixel d1 4 4 = Inr (''green'', None)"
    using getPixel_cell [OF wf1(1), of 4 4] by (simp add: wf1 c1 colorUnknown_iff)
  have eq1: "Triangle_draw Display_screen ?g d1
         = fill_spans Display_screen [0, 0, 0, 0, 0] [4, 3, 2, 1, 0] 0 4 ''green'' d1"
    using corner_triangle_draw [of ?g d1] by (simp add: colorUnknown_iff wf1)
  obtain d2 where d2: "Triangle_draw Display_screen ?g d1 = Inr (d2, None)"
      "paints d1 ?A ''green'' d2"
    using corner_spans_paint [OF wf1(1), of "''green''"] unfolding eq1
    by (auto simp: colorUnknown_iff wf1)
  have "Display_getPixel d2 4 4 =
          (if (4, 4) \<in> ?A then Inr (''green'', None) else Display_getPixel d1 4 4)"
    by (rule paints_getPixel [OF d2(2) wf1(1)]) (auto simp: colorUnknown_iff wf1)
  then have green: "Display_getPixel d2 4 4 = Inr (''green'', None)"
    by (simp add: g1)
  have "Display_initialize Display_zero 5 5 = Inr (fresh 5 5)"
    by (simp add: initialize_fresh)
  moreover have "Display_getPixel (fresh 5 5) 4 4 = Inr (''white'', None)"
    by (simp add: getPixel_fresh)
  ultimately show ?thesis using white d1(1) d2(1) green by auto
qed




section \<open>Claims about the display\<close>

text \<open>
  Claim C9. \<^verbatim>\<open>initialize\<close> with a width and a height that are not negative returns a display
  whose cells in range all read as white. From there every sequence of calls of
  \<^verbatim>\<open>drawPixel\<close>, \<^verbatim>\<open>clearScreen\<close> and the three \<^verbatim>\<open>draw\<close> methods runs without a panic and
  ends in a display whose cells all hold a color of the table, so that \<^verbatim>\<open>getPixel\<close> in range
  returns a color of the table and never the invalid-color error.
\<close>

theorem reachable_display_valid:
  assumes "0 \<le> w" "0 \<le> h"
  shows "\<exists>d0 d. Display_initialize dz w h = Inr d0 \<and>
           (\<forall>x y. 0 \<le> x \<and> x < w \<and> 0 \<le> y \<and> y < h \<longrightarrow> Display_getPixel d0 x y = Inr (''white'', None)) \<and>
           perform_all d0 calls = Inr d \<and> valid_cells d \<and>
           (\<forall>x y. 0 \<le> x \<and> x < w \<and> 0 \<le> y \<and> y < h \<longrightarrow>
              (\<exists>c. Display_getPixel d x y = Inr (c, None) \<and> \<not> colorUnknown c))"
proof -
  obtain d where d: "perform_all (fresh w h) calls = Inr d" "inv w h d"
    using perform_all_inv [OF inv_fresh [OF assms]] by blast
  have "\<exists>c. Display_getPixel d x y = Inr (c, None) \<and> \<not> colorUnknown c"
    if "0 \<le> x" "x < w" "0 \<le> y" "y < h" for x y
    using getPixel_inv [OF d(2) that] by blast
  moreover have "valid_cells d" using d(2) by (simp add: inv_def)
  moreover have "Display_initialize dz w h = Inr (fresh w h)" using assms by (rule initialize_fresh)
  moreover have "\<forall>x y. 0 \<le> x \<and> x < w \<and> 0 \<le> y \<and> y < h \<longrightarrow>
                   Display_getPixel (fresh w h) x y = Inr (''white'', None)"
    using assms by (simp add: getPixel_fresh)
  ultimately show ?thesis using d(1) by blast
qed

theorem reachable_display_valid_witness:
  "\<exists>d0 d. Display_initialize Display_zero 3 3 = Inr d0 \<and>
     Display_getPixel d0 1 1 = Inr (''white'', None) \<and>
     perform_all d0
       [CallRectangle \<lparr>ll = \<lparr>px = 0, py = 0\<rparr>, ur = \<lparr>px = 2, py = 2\<rparr>, rect_c = ''red''\<rparr>,
        CallDrawPixel 1 1 ''pink'',
        CallCircle \<lparr>center = \<lparr>px = 1, py = 1\<rparr>, circ_r = 1, circ_c = ''blue''\<rparr>,
        CallTriangle \<lparr>pt0 = \<lparr>px = 0, py = 0\<rparr>, pt1 = \<lparr>px = 2, py = 1\<rparr>, pt2 = \<lparr>px = 1, py = 2\<rparr>, tri_c = ''green''\<rparr>,
        CallDrawPixel 7 7 ''black''] = Inr d \<and>
     valid_cells d \<and>
     (\<exists>c. Display_getPixel d 2 2 = Inr (c, None) \<and> \<not> colorUnknown c)"
proof -
  let ?calls = "[CallRectangle \<lparr>ll = \<lparr>px = 0, py = 0\<rparr>, ur = \<lparr>px = 2, py = 2\<rparr>, rect_c = ''red''\<rparr>,
        CallDrawPixel 1 1 ''pink'',
        CallCircle \<lparr>center = \<lparr>px = 1, py = 1\<rparr>, circ_r = 1, circ_c = ''blue''\<rparr>,
        CallTriangle \<lparr>pt0 = \<lparr>px = 0, py = 0\<rparr>, pt1 = \<lparr>px = 2, py = 1\<rparr>, pt2 = \<lparr>px = 1, py = 2\<rparr>, tri_c = ''green''\<rparr>,
        CallDrawPixel 7 7 ''black'']"
  obtain d0 d where a: "Display_initialize Display_zero 3 3 = Inr d0"
    and b: "\<forall>x y. 0 \<le> x \<and> x < 3 \<and> 0 \<le> y \<and> y < 3 \<longrightarrow> Display_getPixel d0 x y = Inr (''white'', None)"
    and c: "perform_all d0 ?calls = Inr d" "valid_cells d"
    and e: "\<forall>x y. 0 \<le> x \<and> x < 3 \<and> 0 \<le> y \<and> y < 3 \<longrightarrow>
              (\<exists>c. Display_getPixel d x y = Inr (c, None) \<and> \<not> colorUnknown c)"
    using reachable_display_valid [of 3 3 Display_zero ?calls] by auto
  have "Display_getPixel d0 1 1 = Inr (''white'', None)" using b by simp
  moreover have "\<exists>c. Display_getPixel d 2 2 = Inr (c, None) \<and> \<not> colorUnknown c" using e by simp
  ultimately show ?thesis using a c by blast
qed

text \<open>
  Claim C6. On a display of the initialized shape, when the file can be created,
  \<^verbatim>\<open>screenShot\<close> writes exactly the text of the specification to it: the magic line, the
  width and the height, \<open>255\<close>, then one line per index of the first axis (the outer loop
  over x, the inner loop over y) with the triplets of that index. The witness is a new 2
  by 2 display: the magic line, \<open>2 2\<close>, \<open>255\<close>, and two lines of two triplets
  \<open>255 255 255\<close> each.
\<close>

theorem screenShot_text:
  assumes "wf_display d" and "creatable fs (f @ ''.ppm'')"
  shows "Display_screenShot d f fs = Inr (fs\<lparr>files := (files fs)(f @ ''.ppm'' \<mapsto> ppm_text d)\<rparr>, None)"
proof -
  let ?header = "''P3'' @ [newline] @ format_d (maxX d) @ '' '' @ format_d (maxY d) @ [newline]
                      @ ''255'' @ [newline]"
  have "for_upto 0 (maxX d) (write_row d) ?header
          = Inr (?header @ concat (map (ppm_line d) [0..maxX d - 1]), None)"
    by (rule for_upto_append) (simp add: write_row_line assms(1))
  then show ?thesis
    using assms(2) by (simp add: Display_screenShot_def ppm_text_def Let_def)
qed

theorem screenShot_text_witness:
  "Display_initialize Display_zero 2 2 = Inr (fresh 2 2) \<and>
   Display_screenShot (fresh 2 2) ''shot'' \<lparr>creatable = (\<lambda>_. True), files = (\<lambda>_. None)\<rparr>
     = Inr (\<lparr>creatable = (\<lambda>_. True),
             files = [''shot.ppm'' \<mapsto>
               ''P3'' @ [newline] @ ''2 2'' @ [newline] @ ''255'' @ [newline] @
               ''255 255 255 255 255 255 '' @ [newline] @
               ''255 255 255 255 255 255 '' @ [newline]]\<rparr>, None)"
  using screenShot_text [of "fresh 2 2" "\<lparr>creatable = (\<lambda>_. True), files = (\<lambda>_. None)\<rparr>" "''shot''"]
  by (simp add: wf_fresh initialize_fresh ppm_text_fresh_2_2)

end
